theory Spec2Isabelle
  imports Complex_Main
begin

section \<open>The layered-grid data model of layer\_axiom\_game.py\<close>

text \<open>
  A cell symbol is a Python \<open>str\<close>; it is modelled as a \<open>string\<close>, the list of the
  bytes of its UTF-8 encoding, so that equality of symbols is equality of Python strings.
  \<open>DEFAULT_CHAR\<close> is U+25E6, the three bytes E2 97 A6.
\<close>

type_synonym symbol = string

definition DEFAULT_CHAR :: symbol where
  "DEFAULT_CHAR = [CHR 0xE2, CHR 0x97, CHR 0xA6]"

definition CENTER_CHAR :: symbol where
  "CENTER_CHAR = ''O''"

text \<open>The two exceptions list and dictionary accesses of the program can raise.\<close>

datatype error = KeyError | IndexError

type_synonym grid = "symbol list list"
type_synonym flags = "bool list list"

text \<open>
  The global dictionary \<open>data\<close>: keys are (layer, axiom), values the pair
  (grid, read\_only) of two row-major matrices (\<open>grid[gy][gx]\<close>). A layer is a
  natural number: the program only ever counts layers up from 0 (the \<open>-\<close> key is
  guarded by \<open>current_layer > 0\<close>, prefill starts at 1). An axiom is the Python string
  used as key. The interpreter's recursion limit is not modelled.
\<close>

type_synonym store = "(nat \<times> string) \<rightharpoonup> (grid \<times> flags)"

record state =
  current_layer :: nat
  current_axiom :: string
  cursor_x :: int
  cursor_y :: int
  data :: store

definition initial_state :: state where
  "initial_state =
     \<lparr>current_layer = 0, current_axiom = ''A'', cursor_x = 0, cursor_y = 0, data = Map.empty\<rparr>"

subsection \<open>Python list indexing\<close>

text \<open>
  \<open>xs[i]\<close> for a list of length \<open>n\<close>: an index in \<open>[0, n)\<close> is used as it is, an
  index in \<open>[-n, 0)\<close> counts from the end, anything else raises IndexError.
\<close>

definition py_index :: "nat \<Rightarrow> int \<Rightarrow> error + nat" where
  "py_index n i =
     (if 0 \<le> i \<and> i < int n then Inr (nat i)
      else if - int n \<le> i \<and> i < 0 then Inr (nat (int n + i))
      else Inl IndexError)"

definition py_get2 :: "'a list list \<Rightarrow> int \<Rightarrow> int \<Rightarrow> error + 'a" where
  "py_get2 g gy gx =
     (case py_index (length g) gy of
        Inl e \<Rightarrow> Inl e
      | Inr j \<Rightarrow>
          (case py_index (length (g ! j)) gx of
             Inl e \<Rightarrow> Inl e
           | Inr i \<Rightarrow> Inr (g ! j ! i)))"

definition py_set2 :: "'a list list \<Rightarrow> int \<Rightarrow> int \<Rightarrow> 'a \<Rightarrow> error + 'a list list" where
  "py_set2 g gy gx v =
     (case py_index (length g) gy of
        Inl e \<Rightarrow> Inl e
      | Inr j \<Rightarrow>
          (case py_index (length (g ! j)) gx of
             Inl e \<Rightarrow> Inl e
           | Inr i \<Rightarrow> Inr (g[j := (g ! j)[i := v]])))"

subsection \<open>GridStore: create\_layer\_axiom and ensure\_layer\_axiom\<close>

definition layer_dimension :: "nat \<Rightarrow> nat" where
  "layer_dimension layer = 2 * layer + 1"

text \<open>
  The two nested \<open>for py in range(prev_dim): for px in range(prev_dim)\<close> loops of
  create\_layer\_axiom, run over the list of index pairs in the order of the loops
  (\<open>List.product [0..<prev_dim] [0..<prev_dim]\<close>, py-major).
\<close>

fun copy_prev :: "grid \<Rightarrow> nat \<Rightarrow> (nat \<times> nat) list \<Rightarrow> grid \<times> flags \<Rightarrow> error + grid \<times> flags" where
  "copy_prev prev_grid offset [] (grid, read_only) = Inr (grid, read_only)"
| "copy_prev prev_grid offset ((py, px) # rest) (grid, read_only) =
     (case py_get2 prev_grid (int py) (int px) of
        Inl e \<Rightarrow> Inl e
      | Inr ch0 \<Rightarrow>
          (let ch = (if ch0 = CENTER_CHAR then '' '' else ch0) in
           case py_set2 grid (int (py + offset)) (int (px + offset)) ch of
             Inl e \<Rightarrow> Inl e
           | Inr grid' \<Rightarrow>
               (case py_set2 read_only (int (py + offset)) (int (px + offset)) True of
                  Inl e \<Rightarrow> Inl e
                | Inr read_only' \<Rightarrow> copy_prev prev_grid offset rest (grid', read_only'))))"

fun create_layer_axiom :: "nat \<Rightarrow> string \<Rightarrow> store \<Rightarrow> error + store"
  and ensure_layer_axiom :: "nat \<Rightarrow> string \<Rightarrow> store \<Rightarrow> error + store" where
  "create_layer_axiom layer axiom d =
     (let dim = layer_dimension layer;
          grid = replicate dim (replicate dim DEFAULT_CHAR);
          read_only = replicate dim (replicate dim False)
      in if layer = 0 then
           (case py_set2 grid 0 0 CENTER_CHAR of
              Inl e \<Rightarrow> Inl e
            | Inr grid' \<Rightarrow>
                (case py_set2 read_only 0 0 False of
                   Inl e \<Rightarrow> Inl e
                 | Inr read_only' \<Rightarrow> Inr (d((layer, axiom) \<mapsto> (grid', read_only')))))
         else
           (case ensure_layer_axiom (layer - 1) axiom d of
              Inl e \<Rightarrow> Inl e
            | Inr d1 \<Rightarrow>
                (case d1 (layer - 1, axiom) of
                   None \<Rightarrow> Inl KeyError
                 | Some (prev_grid, prev_read_only) \<Rightarrow>
                     (let prev_dim = layer_dimension (layer - 1);
                          offset = (dim - prev_dim) div 2
                      in case copy_prev prev_grid offset
                                (List.product [0..<prev_dim] [0..<prev_dim]) (grid, read_only) of
                           Inl e \<Rightarrow> Inl e
                         | Inr (grid', read_only') \<Rightarrow>
                             Inr (d1((layer, axiom) \<mapsto> (grid', read_only')))))))"
| "ensure_layer_axiom layer axiom d =
     (if d (layer, axiom) = None then create_layer_axiom layer axiom d else Inr d)"

declare create_layer_axiom.simps [simp del] ensure_layer_axiom.simps [simp del]

subsection \<open>RingExtractor: get\_outer\_ring\_cells\<close>

text \<open>
  The loops \<open>for y in range(-N, N+1): for x in range(-N, N+1)\<close> run over the pairs
  \<open>(y, x)\<close> of \<open>List.product [-N..N] [-N..N]\<close>; \<open>ring.append\<close> adds at the end of the
  accumulator, \<open>continue\<close> goes on with the accumulator unchanged.
\<close>

fun ring_scan :: "grid \<Rightarrow> int \<Rightarrow> (int \<times> int) list \<Rightarrow> (int \<times> int \<times> symbol) list \<Rightarrow>
    error + (int \<times> int \<times> symbol) list" where
  "ring_scan grid N [] ring = Inr ring"
| "ring_scan grid N ((y, x) # rest) ring =
     (if max \<bar>x\<bar> \<bar>y\<bar> = N then
        (let gx = x + N; gy = y + N in
         case py_get2 grid gy gx of
           Inl e \<Rightarrow> Inl e
         | Inr ch \<Rightarrow>
             if ch \<in> set ['' '', '''', DEFAULT_CHAR] then ring_scan grid N rest ring
             else ring_scan grid N rest (ring @ [(x, y, ch)]))
      else ring_scan grid N rest ring)"

definition get_outer_ring_cells :: "nat \<Rightarrow> string \<Rightarrow> store \<Rightarrow> error + (int \<times> int \<times> symbol) list" where
  "get_outer_ring_cells layer axiom d =
     (case d (layer, axiom) of
        None \<Rightarrow> Inl KeyError
      | Some (grid, ro) \<Rightarrow>
          if layer = 0 then
            (case py_get2 grid 0 0 of Inl e \<Rightarrow> Inl e | Inr ch \<Rightarrow> Inr [(0, 0, ch)])
          else
            (let N = int layer in ring_scan grid N (List.product [- N..N] [- N..N]) []))"

subsection \<open>CoordinateProjector: the per-ring part of render\_3d\<close>

text \<open>
  Python floats are modelled by the reals; \<open>math.atan2\<close>, \<open>math.cos\<close>, \<open>math.sin\<close>
  and \<open>math.sqrt\<close> by their mathematical counterparts. The statements proved about the
  projector below concern the shape of the emitted sequences only, never a coordinate.
\<close>

definition atan2 :: "real \<Rightarrow> real \<Rightarrow> real" where
  "atan2 y x =
     (if 0 < x then arctan (y / x)
      else if x < 0 \<and> 0 \<le> y then arctan (y / x) + pi
      else if x < 0 then arctan (y / x) - pi
      else if 0 < y then pi / 2
      else if y < 0 then - pi / 2
      else 0)"

definition calculate_coordinates :: "string \<Rightarrow> nat \<Rightarrow> real \<Rightarrow> real \<times> real \<times> real" where
  "calculate_coordinates axiom layer angle =
     (let factor = sqrt 2 / 2; c = cos angle; sn = sin angle; l = real layer in
      if axiom = ''A'' then (l * c, l * sn, 0)
      else if axiom = ''B'' then (0, l * c, l * sn)
      else if axiom = ''C'' then (l * c, 0, l * sn)
      else if axiom = ''D'' then (l * c, l * sn * factor, l * sn * factor)
      else if axiom = ''E'' then (l * sn * factor, l * c, l * sn * factor)
      else if axiom = ''F'' then (l * sn * factor, l * sn * factor, l * c)
      else if axiom = ''H'' then (l * c, l * sn * factor, - l * sn * factor)
      else if axiom = ''I'' then (- l * sn * factor, l * c, l * sn * factor)
      else if axiom = ''J'' then (- l * sn * factor, l * sn * factor, l * c)
      else (0, 0, 0))"

text \<open>The square strategy of old\_versions/axiom\_square\_beta.py.\<close>

definition calculate_square_2d :: "nat \<Rightarrow> real \<Rightarrow> real \<times> real" where
  "calculate_square_2d layer fraction =
     (if layer = 0 then (0, 0)
      else
        (let l = real layer; side = 2 * l; t = frac fraction in
         if t < 0.25 then (- l + ((t - 0.0) / 0.25) * side, l)
         else if t < 0.5 then (l, l - ((t - 0.25) / 0.25) * side)
         else if t < 0.75 then (l - ((t - 0.5) / 0.25) * side, - l)
         else (- l, - l + ((t - 0.75) / 0.25) * side)))"

definition calculate_square_coordinates :: "string \<Rightarrow> nat \<Rightarrow> real \<Rightarrow> real \<times> real \<times> real" where
  "calculate_square_coordinates axiom layer fraction =
     (let (x2d, y2d) = calculate_square_2d layer fraction; factor = sqrt 2 / 2 in
      if axiom = ''A'' then (x2d, y2d, 0)
      else if axiom = ''B'' then (0, x2d, y2d)
      else if axiom = ''C'' then (x2d, 0, y2d)
      else if axiom = ''D'' then (x2d, y2d * factor, y2d * factor)
      else if axiom = ''E'' then (y2d * factor, x2d, y2d * factor)
      else if axiom = ''F'' then (y2d * factor, y2d * factor, x2d)
      else if axiom = ''H'' then (x2d, y2d * factor, - y2d * factor)
      else if axiom = ''I'' then (- y2d * factor, x2d, y2d * factor)
      else if axiom = ''J'' then (- y2d * factor, y2d * factor, x2d)
      else (0, 0, 0))"

text \<open>
  One round of the loop \<open>for (layer, axiom) in data.keys()\<close> of render\_3d, up to and
  including the closing of the polyline: the four lists \<open>x_vals\<close>, \<open>y_vals\<close>,
  \<open>z_vals\<close>, \<open>text_vals\<close>, or \<open>None\<close> when the round is skipped by \<open>continue\<close>.
  \<open>list.sort(key=...)\<close> is a stable sort, as \<open>sort_key\<close> is.
\<close>

type_synonym trace = "real list \<times> real list \<times> real list \<times> symbol list"

definition sort_ring :: "(int \<times> int \<times> symbol) list \<Rightarrow> (int \<times> int \<times> symbol) list" where
  "sort_ring ring_cells =
     sort_key (\<lambda>c. atan2 (real_of_int (fst (snd c))) (real_of_int (fst c))) ring_cells"

definition render_3d_ring :: "string \<Rightarrow> nat \<Rightarrow> (int \<times> int \<times> symbol) list \<Rightarrow> trace option" where
  "render_3d_ring axiom layer ring_cells0 =
     (if ring_cells0 = [] then None
      else
        (let ring_cells = sort_ring ring_cells0;
             points = map (\<lambda>(i, (ox, oy, ch)).
                        calculate_coordinates axiom layer
                          (2 * pi * real i / real (length ring_cells)))
                      (enumerate 0 ring_cells);
             x_vals = map fst points;
             y_vals = map (\<lambda>p. fst (snd p)) points;
             z_vals = map (\<lambda>p. snd (snd p)) points;
             text_vals = map (\<lambda>(ox, oy, ch). ch) ring_cells
         in if length x_vals > 1 then
              Some (x_vals @ [x_vals ! 0], y_vals @ [y_vals ! 0], z_vals @ [z_vals ! 0], text_vals)
            else Some (x_vals, y_vals, z_vals, text_vals)))"

definition render_3d_ring_square :: "string \<Rightarrow> nat \<Rightarrow> (int \<times> int \<times> symbol) list \<Rightarrow> trace option" where
  "render_3d_ring_square axiom layer ring_cells0 =
     (if ring_cells0 = [] then None
      else
        (let ring_cells = sort_ring ring_cells0;
             points = map (\<lambda>(i, (ox, oy, ch)).
                        calculate_square_coordinates axiom layer
                          (real i / real (length ring_cells)))
                      (enumerate 0 ring_cells);
             x_vals = map fst points;
             y_vals = map (\<lambda>p. fst (snd p)) points;
             z_vals = map (\<lambda>p. snd (snd p)) points;
             text_vals = map (\<lambda>(ox, oy, ch). ch) ring_cells
         in if length x_vals > 1 then
              Some (x_vals @ [x_vals ! 0], y_vals @ [y_vals ! 0], z_vals @ [z_vals ! 0],
                    text_vals @ [text_vals ! 0])
            else Some (x_vals, y_vals, z_vals, text_vals)))"

definition render_3d_trace :: "nat \<Rightarrow> string \<Rightarrow> store \<Rightarrow> error + trace option" where
  "render_3d_trace layer axiom d =
     (case get_outer_ring_cells layer axiom d of
        Inl e \<Rightarrow> Inl e
      | Inr ring_cells \<Rightarrow> Inr (render_3d_ring axiom layer ring_cells))"

definition render_3d_trace_square :: "nat \<Rightarrow> string \<Rightarrow> store \<Rightarrow> error + trace option" where
  "render_3d_trace_square layer axiom d =
     (case get_outer_ring_cells layer axiom d of
        Inl e \<Rightarrow> Inl e
      | Inr ring_cells \<Rightarrow> Inr (render_3d_ring_square axiom layer ring_cells))"

subsection \<open>CursorNavigator\<close>

definition is_within_bounds :: "int \<Rightarrow> int \<Rightarrow> state \<Rightarrow> bool" where
  "is_within_bounds x y s =
     (- int (current_layer s) \<le> x \<and> x \<le> int (current_layer s) \<and>
      - int (current_layer s) \<le> y \<and> y \<le> int (current_layer s))"

definition is_read_only :: "int \<Rightarrow> int \<Rightarrow> state \<Rightarrow> error + bool" where
  "is_read_only x y s =
     (case data s (current_layer s, current_axiom s) of
        None \<Rightarrow> Inl KeyError
      | Some (grid, ro) \<Rightarrow>
          (let center = int (current_layer s); gx = x + center; gy = y + center
           in py_get2 ro gy gx))"

text \<open>
  The \<open>while True\<close> loop of jump\_across, from the position \<open>(x, y)\<close>. The loop has no
  bound of its own, so it is a partial function: \<open>None\<close> is "does not return". The
  result carries the returned flag and the state (only the cursor can have changed).
\<close>

partial_function (option) jump_loop :: "int \<Rightarrow> int \<Rightarrow> state \<Rightarrow> int \<Rightarrow> int \<Rightarrow> (error + bool \<times> state) option" where
  "jump_loop dx dy s x y =
     (let nx = x + dx; ny = y + dy in
      if \<not> is_within_bounds nx ny s then Some (Inr (False, s))
      else
        (case is_read_only nx ny s of
           Inl e \<Rightarrow> Some (Inl e)
         | Inr ro \<Rightarrow>
             if \<not> ro then Some (Inr (True, s\<lparr>cursor_x := nx, cursor_y := ny\<rparr>))
             else jump_loop dx dy s nx ny))"

definition jump_across :: "int \<Rightarrow> int \<Rightarrow> state \<Rightarrow> (error + bool \<times> state) option" where
  "jump_across dx dy s = jump_loop dx dy s (cursor_x s) (cursor_y s)"

definition move_cursor :: "int \<Rightarrow> int \<Rightarrow> state \<Rightarrow> (error + state) option" where
  "move_cursor dx dy s =
     (case jump_across dx dy s of
        None \<Rightarrow> None
      | Some (Inl e) \<Rightarrow> Some (Inl e)
      | Some (Inr (moved, s')) \<Rightarrow> Some (Inr s'))"

text \<open>
  The same loop with a budget of iterations: \<open>jump_steps n\<close> runs at most \<open>n\<close> rounds of
  the loop body and is \<open>None\<close> when the budget does not suffice. It is used to count
  the rounds of \<open>jump_loop\<close>.
\<close>

fun jump_steps :: "nat \<Rightarrow> int \<Rightarrow> int \<Rightarrow> state \<Rightarrow> int \<Rightarrow> int \<Rightarrow> (error + bool \<times> state) option" where
  "jump_steps 0 dx dy s x y = None"
| "jump_steps (Suc n) dx dy s x y =
     (let nx = x + dx; ny = y + dy in
      if \<not> is_within_bounds nx ny s then Some (Inr (False, s))
      else
        (case is_read_only nx ny s of
           Inl e \<Rightarrow> Some (Inl e)
         | Inr ro \<Rightarrow>
             if \<not> ro then Some (Inr (True, s\<lparr>cursor_x := nx, cursor_y := ny\<rparr>))
             else jump_steps n dx dy s nx ny))"

definition insert_char :: "symbol \<Rightarrow> state \<Rightarrow> error + state" where
  "insert_char ch s =
     (case data s (current_layer s, current_axiom s) of
        None \<Rightarrow> Inl KeyError
      | Some (grid, read_only) \<Rightarrow>
          (let center = int (current_layer s);
               gx = cursor_x s + center;
               gy = cursor_y s + center
           in case py_get2 read_only gy gx of
                Inl e \<Rightarrow> Inl e
              | Inr ro \<Rightarrow>
                  if \<not> ro then
                    (case py_set2 grid gy gx ch of
                       Inl e \<Rightarrow> Inl e
                     | Inr grid' \<Rightarrow>
                         Inr (s\<lparr>data := (data s)((current_layer s, current_axiom s) \<mapsto> (grid', read_only))\<rparr>))
                  else Inr s))"

definition go_to_layer_axiom :: "nat \<Rightarrow> string \<Rightarrow> state \<Rightarrow> error + state" where
  "go_to_layer_axiom layer axiom s =
     (let s1 = s\<lparr>current_layer := layer, current_axiom := axiom\<rparr> in
      case ensure_layer_axiom (current_layer s1) (current_axiom s1) (data s1) of
        Inl e \<Rightarrow> Inl e
      | Inr d \<Rightarrow>
          Inr (s1\<lparr>data := d, cursor_x := - int (current_layer s1), cursor_y := - int (current_layer s1)\<rparr>))"

subsection \<open>PrefillEngine: prefill\_layers\<close>

text \<open>
  Python's \<open>random\<close> module is not part of the program. It is a parameter: a generator
  state of some type \<open>'r\<close>, \<open>random.seed\<close>, \<open>random.sample\<close> and \<open>random.choice\<close>
  as functions that thread that state.
\<close>

record 'r random_module =
  rnd_seed :: "int \<Rightarrow> 'r"
  rnd_sample :: "'r \<Rightarrow> (int \<times> int) list \<Rightarrow> nat \<Rightarrow> (int \<times> int) list \<times> 'r"
  rnd_choice :: "'r \<Rightarrow> symbol list \<Rightarrow> symbol \<times> 'r"

fun ring_unfrozen :: "flags \<Rightarrow> int \<Rightarrow> (int \<times> int) list \<Rightarrow> (int \<times> int) list \<Rightarrow> error + (int \<times> int) list" where
  "ring_unfrozen ro N [] ring_coords = Inr ring_coords"
| "ring_unfrozen ro N ((y, x) # rest) ring_coords =
     (if max \<bar>x\<bar> \<bar>y\<bar> = N then
        (let gx = x + N; gy = y + N in
         case py_get2 ro gy gx of
           Inl e \<Rightarrow> Inl e
         | Inr b \<Rightarrow>
             if \<not> b then ring_unfrozen ro N rest (ring_coords @ [(gx, gy)])
             else ring_unfrozen ro N rest ring_coords)
      else ring_unfrozen ro N rest ring_coords)"

fun fill_full :: "grid \<Rightarrow> symbol \<Rightarrow> (int \<times> int) list \<Rightarrow> error + grid" where
  "fill_full grid base_char [] = Inr grid"
| "fill_full grid base_char ((gx, gy) # rest) =
     (if base_char \<notin> set [DEFAULT_CHAR] then
        (case py_set2 grid gy gx base_char of
           Inl e \<Rightarrow> Inl e
         | Inr grid' \<Rightarrow> fill_full grid' base_char rest)
      else fill_full grid base_char rest)"

fun fill_partial :: "grid \<Rightarrow> symbol \<Rightarrow> (int \<times> int) list \<Rightarrow> error + grid" where
  "fill_partial grid base_char [] = Inr grid"
| "fill_partial grid base_char ((gx, gy) # rest) =
     (case py_set2 grid gy gx base_char of
        Inl e \<Rightarrow> Inl e
      | Inr grid' \<Rightarrow> fill_partial grid' base_char rest)"

fun fill_random :: "'r random_module \<Rightarrow> symbol list \<Rightarrow> grid \<Rightarrow> (int \<times> int) list \<Rightarrow> 'r \<Rightarrow> error + grid \<times> 'r" where
  "fill_random rm chars_list grid [] r = Inr (grid, r)"
| "fill_random rm chars_list grid ((gx, gy) # rest) r =
     (case rnd_choice rm r chars_list of (ch, r') \<Rightarrow>
      case py_set2 grid gy gx ch of
        Inl e \<Rightarrow> Inl e
      | Inr grid' \<Rightarrow> fill_random rm chars_list grid' rest r')"

text \<open>The body of the two nested loops of prefill\_layers, for one (layer, axiom).\<close>

definition prefill_step :: "'r random_module \<Rightarrow> string \<Rightarrow> (string \<times> symbol list) list \<Rightarrow>
    nat \<times> string \<Rightarrow> store \<times> 'r \<Rightarrow> error + store \<times> 'r" where
  "prefill_step rm mode fills la st =
     (case la of (layer, axiom) \<Rightarrow>
      case st of (d, r) \<Rightarrow>
      case ensure_layer_axiom layer axiom d of
        Inl e \<Rightarrow> Inl e
      | Inr d1 \<Rightarrow>
      (case d1 (layer, axiom) of
        None \<Rightarrow> Inl KeyError
      | Some (grid, ro) \<Rightarrow>
      (let N = int layer in
       case ring_unfrozen ro N (List.product [- N..N] [- N..N]) [] of
         Inl e \<Rightarrow> Inl e
       | Inr ring_coords \<Rightarrow>
       (let total = length ring_coords in
        if total = 0 then Inr (d1, r)
        else
          (case map_of fills axiom of
             None \<Rightarrow> Inl KeyError
           | Some chars_list \<Rightarrow>
           (let base_char = (if layer \<le> length chars_list then Some (chars_list ! (layer - 1)) else None)
            in
              if mode = ''full'' then
                (case base_char of
                   None \<Rightarrow> Inr (d1, r)
                 | Some bc \<Rightarrow>
                     (case fill_full grid bc ring_coords of
                        Inl e \<Rightarrow> Inl e
                      | Inr grid' \<Rightarrow> Inr (d1((layer, axiom) \<mapsto> (grid', ro)), r)))
              else if mode = ''partial'' then
                (case base_char of
                   None \<Rightarrow> Inr (d1, r)
                 | Some bc \<Rightarrow>
                     (case rnd_sample rm r ring_coords (total div 2) of (selected, r') \<Rightarrow>
                      case fill_partial grid bc selected of
                        Inl e \<Rightarrow> Inl e
                      | Inr grid' \<Rightarrow> Inr (d1((layer, axiom) \<mapsto> (grid', ro)), r')))
              else if mode = ''random'' then
                (if length chars_list > 0 then
                   (case rnd_sample rm r ring_coords (total div 2) of (selected, r') \<Rightarrow>
                    case fill_random rm chars_list grid selected r' of
                      Inl e \<Rightarrow> Inl e
                    | Inr (grid', r'') \<Rightarrow> Inr (d1((layer, axiom) \<mapsto> (grid', ro)), r''))
                 else Inr (d1, r))
              else Inr (d1, r)))))))"

fun prefill_loop :: "'r random_module \<Rightarrow> string \<Rightarrow> (string \<times> symbol list) list \<Rightarrow>
    (nat \<times> string) list \<Rightarrow> store \<times> 'r \<Rightarrow> error + store \<times> 'r" where
  "prefill_loop rm mode fills [] st = Inr st"
| "prefill_loop rm mode fills (la # rest) st =
     (case prefill_step rm mode fills la st of
        Inl e \<Rightarrow> Inl e
      | Inr st' \<Rightarrow> prefill_loop rm mode fills rest st')"

definition axioms :: "string list" where
  "axioms = [''A'', ''B'', ''C'', ''D'', ''E'', ''F'', ''H'', ''I'', ''J'']"

definition prefill_layers :: "'r random_module \<Rightarrow> string \<Rightarrow>
    symbol list \<Rightarrow> symbol list \<Rightarrow> symbol list \<Rightarrow> symbol list \<Rightarrow> symbol list \<Rightarrow>
    symbol list \<Rightarrow> symbol list \<Rightarrow> symbol list \<Rightarrow> symbol list \<Rightarrow> store \<Rightarrow> error + store" where
  "prefill_layers rm mode fillA fillB fillC fillD fillE fillF fillH fillI fillJ d =
     (let max_layers =
            max (length fillA) (max (length fillB) (max (length fillC) (max (length fillD)
              (max (length fillE) (max (length fillF) (max (length fillH)
                (max (length fillI) (length fillJ))))))));
          fills = [(''A'', fillA), (''B'', fillB), (''C'', fillC), (''D'', fillD), (''E'', fillE),
                   (''F'', fillF), (''H'', fillH), (''I'', fillI), (''J'', fillJ)]
      in case prefill_loop rm mode fills (List.product [1..<max_layers + 1] axioms) (d, rnd_seed rm 0) of
           Inl e \<Rightarrow> Inl e
         | Inr (d', r) \<Rightarrow> Inr d')"

subsection \<open>The interactive loop of run\<close>

text \<open>
  Key codes are the integers \<open>stdscr.getch()\<close> returns; the \<open>curses.KEY_*\<close> constants
  have their ncurses values. One round of the \<open>while True\<close> loop of \<open>run\<close> dispatches
  one key; render\_3d and draw\_interface, called at the head of each round, only read
  the state. Key 4 (Ctrl+D) ends the loop and leaves the state as it is.
\<close>

definition KEY_DOWN :: int where "KEY_DOWN = 258"
definition KEY_UP :: int where "KEY_UP = 259"
definition KEY_LEFT :: int where "KEY_LEFT = 260"
definition KEY_RIGHT :: int where "KEY_RIGHT = 261"
definition KEY_F :: "int \<Rightarrow> int" where "KEY_F n = 264 + n"

definition handle_key :: "int \<Rightarrow> state \<Rightarrow> (error + state) option" where
  "handle_key key s =
     (if key = - 1 then Some (Inr s)
      else if key = 4 then Some (Inr s)
      else if key = KEY_F 1 then Some (go_to_layer_axiom (current_layer s) ''A'' s)
      else if key = KEY_F 2 then Some (go_to_layer_axiom (current_layer s) ''B'' s)
      else if key = KEY_F 3 then Some (go_to_layer_axiom (current_layer s) ''C'' s)
      else if key = KEY_F 4 then Some (go_to_layer_axiom (current_layer s) ''D'' s)
      else if key = KEY_F 5 then Some (go_to_layer_axiom (current_layer s) ''E'' s)
      else if key = KEY_F 6 then Some (go_to_layer_axiom (current_layer s) ''F'' s)
      else if key = KEY_F 7 then Some (go_to_layer_axiom (current_layer s) ''H'' s)
      else if key = KEY_F 8 then Some (go_to_layer_axiom (current_layer s) ''I'' s)
      else if key = KEY_F 9 then Some (go_to_layer_axiom (current_layer s) ''J'' s)
      else if key = 43 then Some (go_to_layer_axiom (current_layer s + 1) (current_axiom s) s)
      else if key = 45 then
        (if current_layer s > 0 then Some (go_to_layer_axiom (current_layer s - 1) (current_axiom s) s)
         else Some (Inr s))
      else if key = KEY_LEFT then move_cursor (- 1) 0 s
      else if key = KEY_RIGHT then move_cursor 1 0 s
      else if key = KEY_UP then move_cursor 0 (- 1) s
      else if key = KEY_DOWN then move_cursor 0 1 s
      else if 32 \<le> key \<and> key < 127 then Some (insert_char [char_of key] s)
      else Some (Inr s))"

text \<open>
  The states of a session. The program starts from \<open>initial_state\<close>, optionally runs
  prefill\_layers once, and \<open>run\<close> begins with \<open>go_to_layer_axiom(0, 'A')\<close>; then every
  round handles one key. Prefill is also admitted as a later step, so that the set
  covers every order in which the four operations can be applied.
\<close>

inductive reachable :: "'r random_module \<Rightarrow> state \<Rightarrow> bool" for rm :: "'r random_module" where
  start: "go_to_layer_axiom 0 ''A'' initial_state = Inr s \<Longrightarrow> reachable rm s"
| start_prefilled:
    "prefill_layers rm mode fillA fillB fillC fillD fillE fillF fillH fillI fillJ (data initial_state) = Inr d \<Longrightarrow>
     go_to_layer_axiom 0 ''A'' (initial_state\<lparr>data := d\<rparr>) = Inr s \<Longrightarrow> reachable rm s"
| key: "reachable rm s \<Longrightarrow> handle_key k s = Some (Inr s') \<Longrightarrow> reachable rm s'"
| prefill:
    "reachable rm s \<Longrightarrow>
     prefill_layers rm mode fillA fillB fillC fillD fillE fillF fillH fillI fillJ (data s) = Inr d \<Longrightarrow>
     reachable rm (s\<lparr>data := d\<rparr>)"

section \<open>Invariants and auxiliary notions\<close>

definition translate :: "symbol \<Rightarrow> symbol" where
  "translate ch = (if ch = CENTER_CHAR then '' '' else ch)"

definition square :: "nat \<Rightarrow> 'a list list \<Rightarrow> bool" where
  "square n g = (length g = n \<and> (\<forall>row \<in> set g. length row = n))"

definition frozen_pos :: "nat \<Rightarrow> nat \<Rightarrow> nat \<Rightarrow> bool" where
  "frozen_pos N gy gx = (0 < gy \<and> gy < 2 * N \<and> 0 < gx \<and> gx < 2 * N)"

definition built_from :: "grid \<times> flags \<Rightarrow> nat \<Rightarrow> grid \<Rightarrow> bool" where
  "built_from gr N pg =
     (square (2 * N + 1) (fst gr) \<and> square (2 * N + 1) (snd gr) \<and>
      (\<forall>gy gx. gy < 2 * N + 1 \<longrightarrow> gx < 2 * N + 1 \<longrightarrow>
         fst gr ! gy ! gx = (if frozen_pos N gy gx then translate (pg ! (gy - 1) ! (gx - 1)) else DEFAULT_CHAR) \<and>
         snd gr ! gy ! gx = frozen_pos N gy gx))"

definition grid_wf :: "nat \<Rightarrow> grid \<times> flags \<Rightarrow> bool" where
  "grid_wf N gr =
     (square (2 * N + 1) (fst gr) \<and> square (2 * N + 1) (snd gr) \<and>
      (\<forall>gy gx. gy < 2 * N + 1 \<longrightarrow> gx < 2 * N + 1 \<longrightarrow> snd gr ! gy ! gx = frozen_pos N gy gx))"

definition store_inv :: "store \<Rightarrow> bool" where
  "store_inv d = (\<forall>N a gr. d (N, a) = Some gr \<longrightarrow> grid_wf N gr \<and> (0 < N \<longrightarrow> d (N - 1, a) \<noteq> None))"

definition fresh_entry :: "store \<Rightarrow> nat \<Rightarrow> string \<Rightarrow> bool" where
  "fresh_entry d N a =
     (case d (N, a) of
        None \<Rightarrow> False
      | Some gr \<Rightarrow>
          (if N = 0 then gr = ([[CENTER_CHAR]], [[False]])
           else (case d (N - 1, a) of None \<Rightarrow> False | Some pgr \<Rightarrow> built_from gr N (fst pgr))))"

definition ensured :: "nat \<Rightarrow> string \<Rightarrow> store \<Rightarrow> store \<Rightarrow> bool" where
  "ensured n a d d' =
     (store_inv d' \<and> d' (n, a) \<noteq> None \<and>
      (\<forall>k. d k \<noteq> None \<longrightarrow> d' k = d k) \<and>
      (\<forall>m b. d (m, b) = None \<longrightarrow> d' (m, b) \<noteq> None \<longrightarrow> b = a \<and> m \<le> n \<and> fresh_entry d' m b))"

definition grid0 :: "grid \<times> flags" where
  "grid0 = ([[CENTER_CHAR]], [[False]])"

definition grid1 :: "grid \<times> flags" where
  "grid1 =
     ([[DEFAULT_CHAR, DEFAULT_CHAR, DEFAULT_CHAR],
       [DEFAULT_CHAR, '' '', DEFAULT_CHAR],
       [DEFAULT_CHAR, DEFAULT_CHAR, DEFAULT_CHAR]],
      [[False, False, False], [False, True, False], [False, False, False]])"

definition unit_direction :: "int \<Rightarrow> int \<Rightarrow> bool" where
  "unit_direction dx dy = ((dx, dy) \<in> set [(- 1, 0), (1, 0), (0, - 1), (0, 1)])"

definition state_inv :: "state \<Rightarrow> bool" where
  "state_inv s =
     (store_inv (data s) \<and> data s (current_layer s, current_axiom s) \<noteq> None \<and>
      is_within_bounds (cursor_x s) (cursor_y s) s \<and>
      is_read_only (cursor_x s) (cursor_y s) s = Inr False)"

definition walk_result :: "int \<Rightarrow> int \<Rightarrow> state \<Rightarrow> int \<Rightarrow> int \<Rightarrow> (error + bool \<times> state) option \<Rightarrow> bool" where
  "walk_result dx dy s x y res =
     ((\<exists>k. 1 \<le> k \<and>
          res = Some (Inr (True, s\<lparr>cursor_x := x + k * dx, cursor_y := y + k * dy\<rparr>)) \<and>
          is_within_bounds (x + k * dx) (y + k * dy) s \<and>
          is_read_only (x + k * dx) (y + k * dy) s = Inr False \<and>
          (\<forall>j. 1 \<le> j \<and> j < k \<longrightarrow>
             is_within_bounds (x + j * dx) (y + j * dy) s \<and>
             is_read_only (x + j * dx) (y + j * dy) s = Inr True))
      \<or> (res = Some (Inr (False, s)) \<and>
          (\<forall>k. 1 \<le> k \<and> is_within_bounds (x + k * dx) (y + k * dy) s \<longrightarrow>
             is_read_only (x + k * dx) (y + k * dy) s = Inr True)))"

definition ring_positions :: "nat \<Rightarrow> (int \<times> int) list" where
  "ring_positions layer = List.product [- int layer..int layer] [- int layer..int layer]"

definition refilled :: "'r random_module \<Rightarrow> string \<Rightarrow> (string \<times> symbol list) list \<Rightarrow> nat \<Rightarrow> string \<Rightarrow>
    grid \<Rightarrow> (int \<times> int) list \<Rightarrow> grid \<Rightarrow> bool" where
  "refilled rm mode fills layer axiom grid ring_coords grid' =
     (\<exists>chars_list. map_of fills axiom = Some chars_list \<and>
        ((mode = ''full'' \<and> layer \<le> length chars_list \<and>
          fill_full grid (chars_list ! (layer - 1)) ring_coords = Inr grid') \<or>
         (mode = ''partial'' \<and> layer \<le> length chars_list \<and>
          (\<exists>r. fill_partial grid (chars_list ! (layer - 1))
                 (fst (rnd_sample rm r ring_coords (length ring_coords div 2))) = Inr grid')) \<or>
         (mode = ''random'' \<and>
          (\<exists>r r1 r2. fill_random rm chars_list grid
                 (fst (rnd_sample rm r ring_coords (length ring_coords div 2))) r1 = Inr (grid', r2)))))"

definition first_picks :: "unit random_module" where
  "first_picks =
     \<lparr>rnd_seed = (\<lambda>n. ()),
      rnd_sample = (\<lambda>r population k. (take k population, r)),
      rnd_choice = (\<lambda>r xs. (hd xs, r))\<rparr>"

definition session0 :: state where
  "session0 = \<lparr>current_layer = 0, current_axiom = ''A'', cursor_x = 0, cursor_y = 0,
               data = [(0, ''A'') \<mapsto> grid0]\<rparr>"

definition session1 :: state where
  "session1 = \<lparr>current_layer = 1, current_axiom = ''A'', cursor_x = - 1, cursor_y = - 1,
               data = [(0, ''A'') \<mapsto> grid0, (1, ''A'') \<mapsto> grid1]\<rparr>"

definition session2 :: state where
  "session2 = \<lparr>current_layer = 1, current_axiom = ''A'', cursor_x = - 1, cursor_y = 0,
               data = [(0, ''A'') \<mapsto> grid0, (1, ''A'') \<mapsto> grid1]\<rparr>"

definition on_frozen :: state where
  "on_frozen = \<lparr>current_layer = 1, current_axiom = ''A'', cursor_x = 0, cursor_y = 0,
                data = [(0, ''A'') \<mapsto> grid0, (1, ''A'') \<mapsto> grid1]\<rparr>"

definition grid1_written :: "grid \<times> flags" where
  "grid1_written =
     ([[''x'', DEFAULT_CHAR, DEFAULT_CHAR],
       [DEFAULT_CHAR, '' '', DEFAULT_CHAR],
       [DEFAULT_CHAR, DEFAULT_CHAR, DEFAULT_CHAR]],
      [[False, False, False], [False, True, False], [False, False, False]])"

definition filtered_out :: "symbol \<Rightarrow> bool" where
  "filtered_out ch = (ch \<in> set ['' '', '''', DEFAULT_CHAR])"

definition chebyshev :: "int \<times> int \<Rightarrow> int" where
  "chebyshev p = (case p of (y, x) \<Rightarrow> max \<bar>x\<bar> \<bar>y\<bar>)"

definition cell_at :: "'a list list \<Rightarrow> nat \<Rightarrow> int \<times> int \<Rightarrow> 'a" where
  "cell_at g N p = (case p of (y, x) \<Rightarrow> g ! nat (y + int N) ! nat (x + int N))"

definition ring_coords_of :: "nat \<Rightarrow> (int \<times> int) list" where
  "ring_coords_of N =
     map (\<lambda>p. (snd p + int N, fst p + int N)) (filter (\<lambda>p. chebyshev p = int N) (ring_positions N))"

definition ring_all :: "store \<Rightarrow> nat \<Rightarrow> string \<Rightarrow> symbol \<Rightarrow> bool" where
  "ring_all d layer axiom smb =
     (case d (layer, axiom) of
        None \<Rightarrow> False
      | Some (g, ro) \<Rightarrow>
          (\<forall>x y. max \<bar>x\<bar> \<bar>y\<bar> = int layer \<longrightarrow>
             py_get2 g (y + int layer) (x + int layer) = Inr smb))"

definition fresh_ring :: "store \<Rightarrow> nat \<Rightarrow> string \<Rightarrow> bool" where
  "fresh_ring d layer axiom = (d (layer, axiom) = None \<or> ring_all d layer axiom DEFAULT_CHAR)"

definition full_symbol :: "symbol list \<Rightarrow> nat \<Rightarrow> symbol" where
  "full_symbol chars_list layer =
     (if layer \<le> length chars_list \<and> chars_list ! (layer - 1) \<noteq> DEFAULT_CHAR
      then chars_list ! (layer - 1) else DEFAULT_CHAR)"

(* aux-defs-end *)

section \<open>Properties\<close>

lemma py_index_nat: "py_index n (int i) = (if i < n then Inr i else Inl IndexError)"
  by (simp add: py_index_def)

lemma square_nth: "square n g \<Longrightarrow> i < n \<Longrightarrow> length (g ! i) = n"
  by (simp add: square_def)

lemma square_length: "square n g \<Longrightarrow> length g = n"
  by (simp add: square_def)

lemma py_get2_square:
  "square n g \<Longrightarrow> py_get2 g (int i) (int j) = (if i < n \<and> j < n then Inr (g ! i ! j) else Inl IndexError)"
  by (auto simp: py_get2_def py_index_nat square_def)

lemma py_set2_square:
  "square n g \<Longrightarrow> py_set2 g (int i) (int j) v =
     (if i < n \<and> j < n then Inr (g[i := (g ! i)[j := v]]) else Inl IndexError)"
  by (auto simp: py_set2_def py_index_nat square_def)

lemma square_update: "square n g \<Longrightarrow> square n (g[i := (g ! i)[j := v]])"
proof (cases "i < length g")
  case True
  assume "square n g"
  with True show ?thesis
    unfolding square_def by (auto dest!: set_update_subset_insert[THEN subsetD])
next
  case False
  assume "square n g"
  moreover from False have "g[i := (g ! i)[j := v]] = g"
    by (intro list_update_beyond) simp
  ultimately show ?thesis by simp
qed

lemma nth_update2:
  "i < length g \<Longrightarrow> j < length (g ! i) \<Longrightarrow>
   g[i := (g ! i)[j := v]] ! a ! b = (if a = i \<and> b = j then v else g ! a ! b)"
  by (cases "a = i") (auto simp: nth_list_update)

lemma square_replicate: "square n (replicate n (replicate n v))"
  by (simp add: square_def)

lemma copy_prev_spec:
  assumes "square pd pg" "square n g" "square n ro"
    and "\<forall>(py, px) \<in> set ps. py < pd \<and> px < pd" and "pd + off \<le> n"
  shows "\<exists>g' ro'. copy_prev pg off ps (g, ro) = Inr (g', ro') \<and> square n g' \<and> square n ro' \<and>
     (\<forall>gy gx. gy < n \<longrightarrow> gx < n \<longrightarrow>
        g' ! gy ! gx = (if off \<le> gy \<and> off \<le> gx \<and> (gy - off, gx - off) \<in> set ps
                        then translate (pg ! (gy - off) ! (gx - off)) else g ! gy ! gx) \<and>
        ro' ! gy ! gx = (if off \<le> gy \<and> off \<le> gx \<and> (gy - off, gx - off) \<in> set ps
                        then True else ro ! gy ! gx))"
  using assms
proof (induction ps arbitrary: g ro)
  case Nil
  then show ?case by simp
next
  case (Cons p ps)
  obtain py px where p: "p = (py, px)" by (cases p)
  from Cons.prems p have lt: "py < pd" "px < pd" by auto
  with Cons.prems have lt': "py + off < n" "px + off < n" by auto
  let ?g1 = "g[py + off := (g ! (py + off))[px + off := translate (pg ! py ! px)]]"
  let ?r1 = "ro[py + off := (ro ! (py + off))[px + off := True]]"
  have sq1: "square n ?g1" "square n ?r1"
    using Cons.prems by (auto intro: square_update)
  have step: "copy_prev pg off (p # ps) (g, ro) = copy_prev pg off ps (?g1, ?r1)"
    using Cons.prems(1,2,3) lt lt' unfolding p
    by (simp add: py_get2_square py_set2_square translate_def del: of_nat_add)
  from Cons.prems have rest: "\<forall>(py, px) \<in> set ps. py < pd \<and> px < pd" by auto
  from Cons.IH[OF Cons.prems(1) sq1 rest Cons.prems(5)]
  obtain g' ro' where r: "copy_prev pg off ps (?g1, ?r1) = Inr (g', ro')" "square n g'" "square n ro'"
    and cells: "\<And>gy gx. gy < n \<Longrightarrow> gx < n \<Longrightarrow>
        g' ! gy ! gx = (if off \<le> gy \<and> off \<le> gx \<and> (gy - off, gx - off) \<in> set ps
                        then translate (pg ! (gy - off) ! (gx - off)) else ?g1 ! gy ! gx) \<and>
        ro' ! gy ! gx = (if off \<le> gy \<and> off \<le> gx \<and> (gy - off, gx - off) \<in> set ps
                        then True else ?r1 ! gy ! gx)"
    by blast
  have lg: "py + off < length g" "px + off < length (g ! (py + off))"
       "py + off < length ro" "px + off < length (ro ! (py + off))"
    using Cons.prems(2,3) lt' by (simp_all add: square_def)
  show ?case
  proof (intro exI conjI allI impI)
    show "copy_prev pg off (p # ps) (g, ro) = Inr (g', ro')" using step r by simp
    show "square n g'" "square n ro'" by fact+
  next
    fix gy gx assume b: "gy < n" "gx < n"
    show "g' ! gy ! gx = (if off \<le> gy \<and> off \<le> gx \<and> (gy - off, gx - off) \<in> set (p # ps)
                        then translate (pg ! (gy - off) ! (gx - off)) else g ! gy ! gx)"
      using cells[OF b] lg by (auto simp: nth_update2 p)
    show "ro' ! gy ! gx = (if off \<le> gy \<and> off \<le> gx \<and> (gy - off, gx - off) \<in> set (p # ps)
                        then True else ro ! gy ! gx)"
      using cells[OF b] lg by (auto simp: nth_update2 p)
  qed
qed

lemma create_0: "create_layer_axiom 0 a d = Inr (d((0, a) \<mapsto> ([[CENTER_CHAR]], [[False]])))"
  by (simp add: create_layer_axiom.simps layer_dimension_def py_set2_def py_index_def)

lemma create_Suc:
  "create_layer_axiom (Suc n) a d =
     (case ensure_layer_axiom n a d of
        Inl e \<Rightarrow> Inl e
      | Inr d1 \<Rightarrow>
          (case d1 (n, a) of
             None \<Rightarrow> Inl KeyError
           | Some (pg, pr) \<Rightarrow>
               (case copy_prev pg 1 (List.product [0..<2 * n + 1] [0..<2 * n + 1])
                       (replicate (2 * n + 3) (replicate (2 * n + 3) DEFAULT_CHAR),
                        replicate (2 * n + 3) (replicate (2 * n + 3) False)) of
                  Inl e \<Rightarrow> Inl e
                | Inr (g, ro) \<Rightarrow> Inr (d1((Suc n, a) \<mapsto> (g, ro))))))"
proof -
  have dims: "layer_dimension (Suc n) = 2 * n + 3" "layer_dimension n = 2 * n + 1"
    "(2 * n + 3 - (2 * n + 1)) div 2 = 1"
    by (simp_all add: layer_dimension_def)
  show ?thesis
    by (subst create_layer_axiom.simps) (simp only: Let_def dims nat.simps if_False diff_Suc_1)
qed

lemma ensure_unfold:
  "ensure_layer_axiom n a d = (if d (n, a) = None then create_layer_axiom n a d else Inr d)"
  by (simp add: ensure_layer_axiom.simps)

lemma frozen_pos_alt: "gy < 2 * n + 3 \<Longrightarrow> gx < 2 * n + 3 \<Longrightarrow>
   frozen_pos (Suc n) gy gx = (1 \<le> gy \<and> 1 \<le> gx \<and> gy - 1 < 2 * n + 1 \<and> gx - 1 < 2 * n + 1)"
  by (auto simp: frozen_pos_def)

lemma copy_prev_built:
  assumes "square (2 * n + 1) pg"
  shows "\<exists>g ro. copy_prev pg 1 (List.product [0..<2 * n + 1] [0..<2 * n + 1])
                       (replicate (2 * n + 3) (replicate (2 * n + 3) DEFAULT_CHAR),
                        replicate (2 * n + 3) (replicate (2 * n + 3) False)) = Inr (g, ro)
          \<and> built_from (g, ro) (Suc n) pg"
proof -
  let ?n = "2 * n + 3"
  let ?g0 = "replicate ?n (replicate ?n DEFAULT_CHAR)"
  let ?r0 = "replicate ?n (replicate ?n False)"
  let ?ps = "List.product [0..<2 * n + 1] [0..<2 * n + 1]"
  have "\<forall>(py, px) \<in> set ?ps. py < 2 * n + 1 \<and> px < 2 * n + 1" by auto
  have "2 * n + 1 + 1 \<le> ?n" by simp
  from copy_prev_spec[OF assms square_replicate square_replicate \<open>\<forall>(py, px) \<in> set ?ps. _\<close> this]
  obtain g ro where r: "copy_prev pg 1 ?ps (?g0, ?r0) = Inr (g, ro)" "square ?n g" "square ?n ro"
    and cells0: "\<forall>gy gx. gy < ?n \<longrightarrow> gx < ?n \<longrightarrow>
        g ! gy ! gx = (if 1 \<le> gy \<and> 1 \<le> gx \<and> (gy - 1, gx - 1) \<in> set ?ps
                        then translate (pg ! (gy - 1) ! (gx - 1)) else ?g0 ! gy ! gx) \<and>
        ro ! gy ! gx = (if 1 \<le> gy \<and> 1 \<le> gx \<and> (gy - 1, gx - 1) \<in> set ?ps
                        then True else ?r0 ! gy ! gx)"
    by blast
  have cells: "g ! gy ! gx = (if 1 \<le> gy \<and> 1 \<le> gx \<and> gy - 1 < 2 * n + 1 \<and> gx - 1 < 2 * n + 1
                        then translate (pg ! (gy - 1) ! (gx - 1)) else DEFAULT_CHAR) \<and>
        ro ! gy ! gx = (1 \<le> gy \<and> 1 \<le> gx \<and> gy - 1 < 2 * n + 1 \<and> gx - 1 < 2 * n + 1)"
    if "gy < ?n" "gx < ?n" for gy gx
    using cells0[rule_format, OF that] that by (simp del: upt_Suc replicate_Suc)
  have eq: "2 * Suc n + 1 = 2 * n + 3" by simp
  have "built_from (g, ro) (Suc n) pg"
    unfolding built_from_def eq fst_conv snd_conv
  proof (intro conjI allI impI)
    show "square ?n g" "square ?n ro" by fact+
  next
    fix gy gx assume b: "gy < ?n" "gx < ?n"
    show "g ! gy ! gx =
           (if frozen_pos (Suc n) gy gx then translate (pg ! (gy - 1) ! (gx - 1)) else DEFAULT_CHAR)"
      using cells[OF b] b by (simp only: frozen_pos_alt)
    show "ro ! gy ! gx = frozen_pos (Suc n) gy gx"
      using cells[OF b] b by (simp only: frozen_pos_alt)
  qed
  with r show ?thesis by blast
qed

lemma built_from_wf: "built_from gr N pg \<Longrightarrow> grid_wf N gr"
  by (simp add: built_from_def grid_wf_def)

lemma grid_wf_0: "grid_wf 0 ([[c]], [[False]])"
  by (simp add: grid_wf_def square_def frozen_pos_def)

text \<open>What ensure does on a well-formed store.\<close>

lemma ensured_inv: "ensured n a d d' \<Longrightarrow> store_inv d'"
  and ensured_there: "ensured n a d d' \<Longrightarrow> d' (n, a) \<noteq> None"
  and ensured_keeps: "ensured n a d d' \<Longrightarrow> d k \<noteq> None \<Longrightarrow> d' k = d k"
  and ensured_new: "ensured n a d d' \<Longrightarrow> d (m, b) = None \<Longrightarrow> d' (m, b) \<noteq> None \<Longrightarrow>
        b = a \<and> m \<le> n \<and> fresh_entry d' m b"
  unfolding ensured_def by blast+

lemma store_invD: "store_inv d \<Longrightarrow> d (N, a) = Some gr \<Longrightarrow> grid_wf N gr"
  and store_inv_chain: "store_inv d \<Longrightarrow> d (N, a) = Some gr \<Longrightarrow> 0 < N \<Longrightarrow> d (N - 1, a) \<noteq> None"
  unfolding store_inv_def by blast+

lemma ensured_refl: "store_inv d \<Longrightarrow> d (n, a) \<noteq> None \<Longrightarrow> ensured n a d d"
  unfolding ensured_def by simp

lemma store_inv_add:
  assumes "store_inv d" "grid_wf N gr" "0 < N \<longrightarrow> d (N - 1, a) \<noteq> None"
  shows "store_inv (d((N, a) \<mapsto> gr))"
  unfolding store_inv_def
proof (intro allI impI)
  fix M b gr' assume h: "(d((N, a) \<mapsto> gr)) (M, b) = Some gr'"
  show "grid_wf M gr' \<and> (0 < M \<longrightarrow> (d((N, a) \<mapsto> gr)) (M - 1, b) \<noteq> None)"
  proof (cases "(M, b) = (N, a)")
    case True
    with h assms show ?thesis by auto
  next
    case False
    with h have "d (M, b) = Some gr'" by (simp split: if_splits)
    from store_invD[OF assms(1) this] store_inv_chain[OF assms(1) this]
    show ?thesis by auto
  qed
qed

lemma ensure_0_spec:
  assumes "store_inv d"
  shows "\<exists>d'. ensure_layer_axiom 0 a d = Inr d' \<and> ensured 0 a d d'"
proof (cases "d (0, a) = None")
  case True
  let ?d' = "d((0, a) \<mapsto> ([[CENTER_CHAR]], [[False]]))"
  have "store_inv ?d'"
    using assms by (intro store_inv_add) (simp_all add: grid_wf_0)
  moreover have "fresh_entry ?d' 0 a" by (simp add: fresh_entry_def)
  ultimately have "ensured 0 a d ?d'"
    using True unfolding ensured_def by (auto split: if_splits)
  moreover have "ensure_layer_axiom 0 a d = Inr ?d'"
    using True by (simp add: ensure_unfold create_0)
  ultimately show ?thesis by blast
next
  case False
  then have "ensure_layer_axiom 0 a d = Inr d" by (auto simp: ensure_unfold)
  with ensured_refl[OF assms False] show ?thesis by blast
qed

lemma fresh_entry_add:
  assumes "fresh_entry d m b" "(m, b) \<noteq> k" "(m - 1, b) \<noteq> k"
  shows "fresh_entry (d(k \<mapsto> gr)) m b"
  using assms unfolding fresh_entry_def by (auto split: option.splits if_splits)

lemma ensure_Suc_step:
  assumes inv: "store_inv d" and none: "d (Suc n, a) = None"
    and e1: "ensure_layer_axiom n a d = Inr d1" and en: "ensured n a d d1"
  shows "\<exists>d'. ensure_layer_axiom (Suc n) a d = Inr d' \<and> ensured (Suc n) a d d'"
proof -
  from ensured_there[OF en] obtain pg pr where prev: "d1 (n, a) = Some (pg, pr)" by auto
  from store_invD[OF ensured_inv[OF en] prev] have sq: "square (2 * n + 1) pg"
    by (simp add: grid_wf_def)
  from copy_prev_built[OF sq] obtain g ro where
    cp: "copy_prev pg 1 (List.product [0..<2 * n + 1] [0..<2 * n + 1])
                     (replicate (2 * n + 3) (replicate (2 * n + 3) DEFAULT_CHAR),
                      replicate (2 * n + 3) (replicate (2 * n + 3) False)) = Inr (g, ro)"
    and bf: "built_from (g, ro) (Suc n) pg" by blast
  let ?d' = "d1((Suc n, a) \<mapsto> (g, ro))"
  have res: "ensure_layer_axiom (Suc n) a d = Inr ?d'"
    unfolding ensure_unfold[of "Suc n"] create_Suc using none e1 prev cp by simp
  have new1: "d1 (Suc n, a) = None"
  proof (rule ccontr)
    assume "d1 (Suc n, a) \<noteq> None"
    from ensured_new[OF en none this] show False by simp
  qed
  have above: "d1 (Suc (Suc n), a) = None"
  proof (rule ccontr)
    assume "d1 (Suc (Suc n), a) \<noteq> None"
    then obtain gr where "d1 (Suc (Suc n), a) = Some gr" by auto
    from store_inv_chain[OF ensured_inv[OF en] this] new1 show False by simp
  qed
  have inv': "store_inv ?d'"
    using ensured_inv[OF en] built_from_wf[OF bf] prev by (intro store_inv_add) simp_all
  have fresh_new: "fresh_entry ?d' (Suc n) a"
    using bf prev by (simp add: fresh_entry_def)
  have "ensured (Suc n) a d ?d'"
    unfolding ensured_def
  proof (intro conjI allI impI)
    show "store_inv ?d'" by fact
    show "?d' (Suc n, a) \<noteq> None" by simp
  next
    fix k assume k: "d k \<noteq> None"
    with none have "k \<noteq> (Suc n, a)" by auto
    with ensured_keeps[OF en k] show "?d' k = d k" by simp
  next
    fix m b assume h: "d (m, b) = None" "?d' (m, b) \<noteq> None"
    have "b = a \<and> m \<le> Suc n \<and> fresh_entry ?d' m b"
    proof (cases "(m, b) = (Suc n, a)")
      case True then show ?thesis using fresh_new by simp
    next
      case False
      with h have nn: "d1 (m, b) \<noteq> None" by (simp split: if_splits)
      from ensured_new[OF en h(1) nn] have f: "b = a" "m \<le> n" "fresh_entry d1 m b" by blast+
      have "(m - 1, b) \<noteq> (Suc n, a)" using f by auto
      from fresh_entry_add[OF f(3) False this] f show ?thesis by simp
    qed
    then show "b = a" "m \<le> Suc n" "fresh_entry ?d' m b" by blast+
  qed
  with res show ?thesis by blast
qed

lemma ensure_spec: "store_inv d \<Longrightarrow> \<exists>d'. ensure_layer_axiom n a d = Inr d' \<and> ensured n a d d'"
proof (induction n)
  case 0
  then show ?case by (rule ensure_0_spec)
next
  case (Suc n)
  show ?case
  proof (cases "d (Suc n, a) = None")
    case False
    then have "ensure_layer_axiom (Suc n) a d = Inr d" by (auto simp: ensure_unfold)
    with ensured_refl[OF Suc.prems False] show ?thesis by blast
  next
    case True
    from Suc.IH[OF Suc.prems] obtain d1 where
      "ensure_layer_axiom n a d = Inr d1" "ensured n a d d1" by blast
    from ensure_Suc_step[OF Suc.prems True this] show ?thesis .
  qed
qed

lemma create_there: "create_layer_axiom N A d = Inr d' \<Longrightarrow> d' (N, A) \<noteq> None"
proof (cases N)
  case 0
  assume "create_layer_axiom N A d = Inr d'"
  with 0 show ?thesis by (auto simp: create_0)
next
  case (Suc n)
  assume "create_layer_axiom N A d = Inr d'"
  with Suc show ?thesis
    by (auto simp: create_Suc split: sum.splits option.splits prod.splits)
qed

lemma ensure_keeps_cached:
  "ensure_layer_axiom n a d = Inr d' \<Longrightarrow> d k \<noteq> None \<Longrightarrow> d' k = d k"
proof (induction n arbitrary: d d')
  case 0
  show ?case
  proof (cases "d (0, a) = None")
    case True
    with "0.prems"(1) have "d' = d((0, a) \<mapsto> ([[CENTER_CHAR]], [[False]]))"
      by (simp add: ensure_unfold create_0)
    moreover from True "0.prems"(2) have "k \<noteq> (0, a)" by auto
    ultimately show ?thesis by simp
  next
    case False
    with "0.prems"(1) show ?thesis by (auto simp: ensure_unfold)
  qed
next
  case (Suc n)
  show ?case
  proof (cases "d (Suc n, a) = None")
    case False
    with Suc.prems(1) show ?thesis by (auto simp: ensure_unfold)
  next
    case True
    with Suc.prems(1) have c: "create_layer_axiom (Suc n) a d = Inr d'" by (simp add: ensure_unfold)
    then obtain d1 gr where e: "ensure_layer_axiom n a d = Inr d1" and d': "d' = d1((Suc n, a) \<mapsto> gr)"
      unfolding create_Suc by (auto split: sum.splits option.splits prod.splits)
    from True Suc.prems(2) have "k \<noteq> (Suc n, a)" by auto
    with d' Suc.IH[OF e Suc.prems(2)] show ?thesis by simp
  qed
qed

text \<open>
  Claim C8. ensure\_layer\_axiom is idempotent. A call for (N, A) on a store that caches
  a grid for (N, A) returns that very store: the building branch is not taken, nothing is
  rebuilt, and whatever has been written into the cached grid stays. Whenever a call
  returns a store, that store caches a grid for (N, A), every grid cached before the call
  is in it unchanged, and a second call returns the very same store.
\<close>
theorem ensure_layer_axiom_idempotent:
  "(d (N, A) \<noteq> None \<longrightarrow> ensure_layer_axiom N A d = Inr d) \<and>
   (ensure_layer_axiom N A d = Inr d' \<longrightarrow>
      d' (N, A) \<noteq> None \<and> (\<forall>k. d k \<noteq> None \<longrightarrow> d' k = d k) \<and>
      ensure_layer_axiom N A d' = Inr d')"
proof (intro conjI impI allI)
  assume "d (N, A) \<noteq> None"
  then show "ensure_layer_axiom N A d = Inr d" by (auto simp: ensure_unfold)
next
  assume r: "ensure_layer_axiom N A d = Inr d'"
  show there: "d' (N, A) \<noteq> None"
  proof (cases "d (N, A) = None")
    case True
    with r have "create_layer_axiom N A d = Inr d'" by (simp add: ensure_unfold)
    then show ?thesis by (rule create_there)
  next
    case False
    with r show ?thesis by (auto simp: ensure_unfold)
  qed
  then show "ensure_layer_axiom N A d' = Inr d'" by (auto simp: ensure_unfold)
  fix k assume "d k \<noteq> None"
  with r show "d' k = d k" by (rule ensure_keeps_cached)
qed

text \<open>The grids of layers 0 and 1 as \<open>create_layer_axiom\<close> builds them from an empty store.\<close>

lemma ensure_0_empty: "ensure_layer_axiom 0 a Map.empty = Inr [(0, a) \<mapsto> grid0]"
  by (simp add: ensure_unfold create_0 grid0_def)

lemma copy_prev_0:
  "copy_prev [[CENTER_CHAR]] 1 [(0, 0)]
     (replicate 3 (replicate 3 DEFAULT_CHAR), replicate 3 (replicate 3 False)) = Inr grid1"
  by (simp add: py_get2_def py_set2_def py_index_def grid1_def numeral_3_eq_3)

lemma ensure_1_empty: "ensure_layer_axiom 1 a Map.empty = Inr [(0, a) \<mapsto> grid0, (1, a) \<mapsto> grid1]"
proof -
  have "create_layer_axiom (Suc 0) a Map.empty = Inr [(0, a) \<mapsto> grid0, (Suc 0, a) \<mapsto> grid1]"
    unfolding create_Suc ensure_0_empty
    using copy_prev_0 by (simp add: grid0_def)
  then show ?thesis by (simp add: ensure_unfold)
qed

theorem ensure_layer_axiom_idempotent_witness:
  "[(0, ''A'') \<mapsto> grid0, (1, ''A'') \<mapsto> grid1_written] (1::nat, ''A'') \<noteq> None \<and>
   ensure_layer_axiom 1 ''A'' [(0, ''A'') \<mapsto> grid0, (1, ''A'') \<mapsto> grid1_written]
     = Inr [(0, ''A'') \<mapsto> grid0, (1, ''A'') \<mapsto> grid1_written] \<and>
   ensure_layer_axiom 1 ''A'' Map.empty = Inr [(0, ''A'') \<mapsto> grid0, (1, ''A'') \<mapsto> grid1] \<and>
   ensure_layer_axiom 1 ''A'' [(0, ''A'') \<mapsto> grid0, (1, ''A'') \<mapsto> grid1]
     = Inr [(0, ''A'') \<mapsto> grid0, (1, ''A'') \<mapsto> grid1]"
proof -
  let ?w = "[(0, ''A'') \<mapsto> grid0, (1::nat, ''A'') \<mapsto> grid1_written]"
  have c: "?w (1, ''A'') \<noteq> None" by simp
  from ensure_layer_axiom_idempotent[of ?w 1 "''A''" ?w] c
  have a: "ensure_layer_axiom 1 ''A'' ?w = Inr ?w" by blast
  from ensure_layer_axiom_idempotent[of Map.empty 1 "''A''" "[(0, ''A'') \<mapsto> grid0, (1, ''A'') \<mapsto> grid1]"]
    ensure_1_empty[of "''A''"]
  have b: "ensure_layer_axiom 1 ''A'' [(0, ''A'') \<mapsto> grid0, (1, ''A'') \<mapsto> grid1]
     = Inr [(0, ''A'') \<mapsto> grid0, (1, ''A'') \<mapsto> grid1]" by blast
  show ?thesis
    by (intro conjI) (rule c, rule a, rule ensure_1_empty, rule b)
qed

lemma create_Suc_spec:
  assumes "store_inv d"
  shows "\<exists>d1 pg pr g ro. ensure_layer_axiom n a d = Inr d1 \<and> ensured n a d d1 \<and>
           d1 (n, a) = Some (pg, pr) \<and>
           create_layer_axiom (Suc n) a d = Inr (d1((Suc n, a) \<mapsto> (g, ro))) \<and>
           built_from (g, ro) (Suc n) pg"
proof -
  from ensure_spec[OF assms] obtain d1 where
    e1: "ensure_layer_axiom n a d = Inr d1" and en: "ensured n a d d1" by blast
  from ensured_there[OF en] obtain pg pr where prev: "d1 (n, a) = Some (pg, pr)" by auto
  from store_invD[OF ensured_inv[OF en] prev] have sq: "square (2 * n + 1) pg"
    by (simp add: grid_wf_def)
  from copy_prev_built[OF sq] obtain g ro where
    cp: "copy_prev pg 1 (List.product [0..<2 * n + 1] [0..<2 * n + 1])
                     (replicate (2 * n + 3) (replicate (2 * n + 3) DEFAULT_CHAR),
                      replicate (2 * n + 3) (replicate (2 * n + 3) False)) = Inr (g, ro)"
    and bf: "built_from (g, ro) (Suc n) pg" by blast
  have "create_layer_axiom (Suc n) a d = Inr (d1((Suc n, a) \<mapsto> (g, ro)))"
    unfolding create_Suc using e1 prev cp by simp
  with e1 en prev bf show ?thesis by blast
qed

lemma cell_center:
  assumes "square (2 * N + 1) g" "max \<bar>x\<bar> \<bar>y\<bar> \<le> int N"
  shows "py_get2 g (y + int N) (x + int N) = Inr (g ! nat (y + int N) ! nat (x + int N))"
proof -
  from assms(2) have b: "nat (y + int N) < 2 * N + 1" "nat (x + int N) < 2 * N + 1" by auto
  from assms(2) have i: "y + int N = int (nat (y + int N))" "x + int N = int (nat (x + int N))"
    by auto
  show ?thesis
    by (subst i(1), subst i(2)) (use b in \<open>simp only: py_get2_square[OF assms(1)] if_True simp_thms\<close>)
qed

lemma frozen_center:
  assumes "max \<bar>x\<bar> \<bar>y\<bar> \<le> int N"
  shows "frozen_pos N (nat (y + int N)) (nat (x + int N)) = (max \<bar>x\<bar> \<bar>y\<bar> < int N)"
  using assms unfolding frozen_pos_def by auto

lemma built_from_center:
  assumes bf: "built_from (g, ro) (Suc n) pg" and sq: "square (2 * n + 1) pg"
    and b: "max \<bar>x\<bar> \<bar>y\<bar> \<le> int (Suc n)"
  shows "py_get2 ro (y + int (Suc n)) (x + int (Suc n)) = Inr (max \<bar>x\<bar> \<bar>y\<bar> < int (Suc n))"
    and "max \<bar>x\<bar> \<bar>y\<bar> = int (Suc n) \<Longrightarrow> py_get2 g (y + int (Suc n)) (x + int (Suc n)) = Inr DEFAULT_CHAR"
    and "max \<bar>x\<bar> \<bar>y\<bar> < int (Suc n) \<Longrightarrow>
           py_get2 pg (y + int n) (x + int n) = Inr (pg ! nat (y + int n) ! nat (x + int n)) \<and>
           py_get2 g (y + int (Suc n)) (x + int (Suc n)) = Inr (translate (pg ! nat (y + int n) ! nat (x + int n)))"
proof -
  let ?gy = "nat (y + int (Suc n))" and ?gx = "nat (x + int (Suc n))"
  from b have lt: "?gy < 2 * Suc n + 1" "?gx < 2 * Suc n + 1" by auto
  from bf have sqs: "square (2 * Suc n + 1) g" "square (2 * Suc n + 1) ro"
    and cells: "g ! ?gy ! ?gx = (if frozen_pos (Suc n) ?gy ?gx then translate (pg ! (?gy - 1) ! (?gx - 1)) else DEFAULT_CHAR)"
      "ro ! ?gy ! ?gx = frozen_pos (Suc n) ?gy ?gx"
    using lt unfolding built_from_def by simp_all
  show "py_get2 ro (y + int (Suc n)) (x + int (Suc n)) = Inr (max \<bar>x\<bar> \<bar>y\<bar> < int (Suc n))"
    using cell_center[OF sqs(2) b] cells(2) frozen_center[OF b] by simp
  show "py_get2 g (y + int (Suc n)) (x + int (Suc n)) = Inr DEFAULT_CHAR" if "max \<bar>x\<bar> \<bar>y\<bar> = int (Suc n)"
    using cell_center[OF sqs(1) b] cells(1) frozen_center[OF b] that by simp
  show "py_get2 pg (y + int n) (x + int n) = Inr (pg ! nat (y + int n) ! nat (x + int n)) \<and>
        py_get2 g (y + int (Suc n)) (x + int (Suc n)) = Inr (translate (pg ! nat (y + int n) ! nat (x + int n)))"
    if "max \<bar>x\<bar> \<bar>y\<bar> < int (Suc n)"
  proof -
    from that have b': "max \<bar>x\<bar> \<bar>y\<bar> \<le> int n" by simp
    then have idx: "?gy - 1 = nat (y + int n)" "?gx - 1 = nat (x + int n)" by auto
    have "frozen_pos (Suc n) ?gy ?gx" using frozen_center[OF b] that by simp
    with cells(1) have "g ! ?gy ! ?gx = translate (pg ! nat (y + int n) ! nat (x + int n))"
      unfolding idx by simp
    with cell_center[OF sq b'] cell_center[OF sqs(1) b] show ?thesis by simp
  qed
qed

text \<open>
  Claim C1. Building layer 0 stores the 1x1 grid holding the origin marker, unfrozen.
  Building layer N = n + 1 on a well-formed store first ensures layer n (giving the store
  d1, in which grid (n, A) is pg), then stores a (2N+1) x (2N+1) grid g with flags ro
  under (N, A): in centered coordinates, every cell at Chebyshev distance below N holds
  the symbol of pg at the same centered position, the origin marker turned into a blank,
  and is frozen whatever its flag was in layer n; every cell at distance exactly N
  holds the default symbol and is unfrozen.
\<close>
theorem create_layer_axiom_builds:
  "create_layer_axiom 0 A d = Inr (d((0, A) \<mapsto> ([[CENTER_CHAR]], [[False]]))) \<and>
   (store_inv d \<longrightarrow>
     (\<exists>d1 pg pr g ro.
        ensure_layer_axiom n A d = Inr d1 \<and> d1 (n, A) = Some (pg, pr) \<and>
        create_layer_axiom (Suc n) A d = Inr (d1((Suc n, A) \<mapsto> (g, ro))) \<and>
        length g = 2 * Suc n + 1 \<and> (\<forall>row \<in> set g. length row = 2 * Suc n + 1) \<and>
        length ro = 2 * Suc n + 1 \<and> (\<forall>row \<in> set ro. length row = 2 * Suc n + 1) \<and>
        (\<forall>x y. max \<bar>x\<bar> \<bar>y\<bar> < int (Suc n) \<longrightarrow>
           (\<exists>ch. py_get2 pg (y + int n) (x + int n) = Inr ch \<and>
                 py_get2 g (y + int (Suc n)) (x + int (Suc n))
                   = Inr (if ch = CENTER_CHAR then '' '' else ch)) \<and>
           py_get2 ro (y + int (Suc n)) (x + int (Suc n)) = Inr True) \<and>
        (\<forall>x y. max \<bar>x\<bar> \<bar>y\<bar> = int (Suc n) \<longrightarrow>
           py_get2 g (y + int (Suc n)) (x + int (Suc n)) = Inr DEFAULT_CHAR \<and>
           py_get2 ro (y + int (Suc n)) (x + int (Suc n)) = Inr False)))"
proof (intro conjI impI)
  show "create_layer_axiom 0 A d = Inr (d((0, A) \<mapsto> ([[CENTER_CHAR]], [[False]])))"
    by (rule create_0)
next
  assume inv: "store_inv d"
  from create_Suc_spec[OF inv, of n A] obtain d1 pg pr g ro where
    e: "ensure_layer_axiom n A d = Inr d1" and en: "ensured n A d d1"
    and prev: "d1 (n, A) = Some (pg, pr)"
    and c: "create_layer_axiom (Suc n) A d = Inr (d1((Suc n, A) \<mapsto> (g, ro)))"
    and bf: "built_from (g, ro) (Suc n) pg" by blast
  from store_invD[OF ensured_inv[OF en] prev] have sq: "square (2 * n + 1) pg"
    by (simp add: grid_wf_def)
  from bf have shape: "length g = 2 * Suc n + 1" "\<forall>row \<in> set g. length row = 2 * Suc n + 1"
    "length ro = 2 * Suc n + 1" "\<forall>row \<in> set ro. length row = 2 * Suc n + 1"
    unfolding built_from_def square_def by simp_all
  have inner: "(\<exists>ch. py_get2 pg (y + int n) (x + int n) = Inr ch \<and>
                 py_get2 g (y + int (Suc n)) (x + int (Suc n))
                   = Inr (if ch = CENTER_CHAR then '' '' else ch)) \<and>
           py_get2 ro (y + int (Suc n)) (x + int (Suc n)) = Inr True"
    if "max \<bar>x\<bar> \<bar>y\<bar> < int (Suc n)" for x y
  proof -
    from that have b: "max \<bar>x\<bar> \<bar>y\<bar> \<le> int (Suc n)" by simp
    from built_from_center(1)[OF bf sq b] built_from_center(3)[OF bf sq b that] that
    show ?thesis by (simp add: translate_def)
  qed
  have ring: "py_get2 g (y + int (Suc n)) (x + int (Suc n)) = Inr DEFAULT_CHAR \<and>
           py_get2 ro (y + int (Suc n)) (x + int (Suc n)) = Inr False"
    if "max \<bar>x\<bar> \<bar>y\<bar> = int (Suc n)" for x y
  proof -
    from that have b: "max \<bar>x\<bar> \<bar>y\<bar> \<le> int (Suc n)" by simp
    from built_from_center(1)[OF bf sq b] built_from_center(2)[OF bf sq b that] that
    show ?thesis by simp
  qed
  from e prev c shape inner ring
  show "\<exists>d1 pg pr g ro.
        ensure_layer_axiom n A d = Inr d1 \<and> d1 (n, A) = Some (pg, pr) \<and>
        create_layer_axiom (Suc n) A d = Inr (d1((Suc n, A) \<mapsto> (g, ro))) \<and>
        length g = 2 * Suc n + 1 \<and> (\<forall>row \<in> set g. length row = 2 * Suc n + 1) \<and>
        length ro = 2 * Suc n + 1 \<and> (\<forall>row \<in> set ro. length row = 2 * Suc n + 1) \<and>
        (\<forall>x y. max \<bar>x\<bar> \<bar>y\<bar> < int (Suc n) \<longrightarrow>
           (\<exists>ch. py_get2 pg (y + int n) (x + int n) = Inr ch \<and>
                 py_get2 g (y + int (Suc n)) (x + int (Suc n))
                   = Inr (if ch = CENTER_CHAR then '' '' else ch)) \<and>
           py_get2 ro (y + int (Suc n)) (x + int (Suc n)) = Inr True) \<and>
        (\<forall>x y. max \<bar>x\<bar> \<bar>y\<bar> = int (Suc n) \<longrightarrow>
           py_get2 g (y + int (Suc n)) (x + int (Suc n)) = Inr DEFAULT_CHAR \<and>
           py_get2 ro (y + int (Suc n)) (x + int (Suc n)) = Inr False)"
    by blast
qed

lemma store_inv_empty: "store_inv Map.empty"
  by (simp add: store_inv_def)

theorem create_layer_axiom_builds_witness:
  "store_inv Map.empty \<and>
   create_layer_axiom 0 ''A'' Map.empty = Inr [(0, ''A'') \<mapsto> ([[CENTER_CHAR]], [[False]])] \<and>
   (\<exists>d1 g ro. create_layer_axiom 1 ''A'' Map.empty = Inr (d1((1, ''A'') \<mapsto> (g, ro))) \<and>
      py_get2 g 1 1 = Inr '' '' \<and> py_get2 ro 1 1 = Inr True \<and>
      py_get2 g 0 2 = Inr DEFAULT_CHAR \<and> py_get2 ro 0 2 = Inr False)"
proof -
  from create_layer_axiom_builds[of "''A''" Map.empty 0] store_inv_empty
  obtain d1 pg pr g ro where
    e: "ensure_layer_axiom 0 ''A'' Map.empty = Inr d1" and prev: "d1 (0, ''A'') = Some (pg, pr)"
    and c: "create_layer_axiom (Suc 0) ''A'' Map.empty = Inr (d1((Suc 0, ''A'') \<mapsto> (g, ro)))"
    and inner: "\<forall>x y. max \<bar>x\<bar> \<bar>y\<bar> < int (Suc 0) \<longrightarrow>
           (\<exists>ch. py_get2 pg (y + int 0) (x + int 0) = Inr ch \<and>
                 py_get2 g (y + int (Suc 0)) (x + int (Suc 0))
                   = Inr (if ch = CENTER_CHAR then '' '' else ch)) \<and>
           py_get2 ro (y + int (Suc 0)) (x + int (Suc 0)) = Inr True"
    and ring: "\<forall>x y. max \<bar>x\<bar> \<bar>y\<bar> = int (Suc 0) \<longrightarrow>
           py_get2 g (y + int (Suc 0)) (x + int (Suc 0)) = Inr DEFAULT_CHAR \<and>
           py_get2 ro (y + int (Suc 0)) (x + int (Suc 0)) = Inr False"
    by blast
  from e prev have pg: "pg = [[CENTER_CHAR]]"
    by (auto simp: ensure_0_empty grid0_def)
  from inner[rule_format, of 0 0] pg
  have a: "py_get2 g 1 1 = Inr '' ''" "py_get2 ro 1 1 = Inr True"
    by (auto simp: py_get2_def py_index_def)
  from ring[rule_format, of 1 "- 1"]
  have b: "py_get2 g 0 2 = Inr DEFAULT_CHAR" "py_get2 ro 0 2 = Inr False"
    by simp_all
  from c a b store_inv_empty create_layer_axiom_builds[of "''A''" Map.empty 0]
  show ?thesis by auto
qed

lemma is_read_only_inv:
  assumes "store_inv (data s)" "data s (current_layer s, current_axiom s) \<noteq> None"
    and "is_within_bounds x y s"
  shows "is_read_only x y s = Inr (max \<bar>x\<bar> \<bar>y\<bar> < int (current_layer s))"
proof -
  from assms(2) obtain g ro where c: "data s (current_layer s, current_axiom s) = Some (g, ro)"
    by auto
  from store_invD[OF assms(1) c] have sq: "square (2 * current_layer s + 1) ro"
    and fl: "\<And>gy gx. gy < 2 * current_layer s + 1 \<Longrightarrow> gx < 2 * current_layer s + 1 \<Longrightarrow>
               ro ! gy ! gx = frozen_pos (current_layer s) gy gx"
    unfolding grid_wf_def by simp_all
  from assms(3) have b: "max \<bar>x\<bar> \<bar>y\<bar> \<le> int (current_layer s)"
    unfolding is_within_bounds_def by auto
  then have lt: "nat (y + int (current_layer s)) < 2 * current_layer s + 1"
    "nat (x + int (current_layer s)) < 2 * current_layer s + 1" by auto
  show ?thesis
    unfolding is_read_only_def c
    using cell_center[OF sq b] fl[OF lt] frozen_center[OF b] by (simp add: Let_def)
qed

lemma jump_steps_sound:
  "jump_steps n dx dy s x y = Some r \<Longrightarrow> jump_loop dx dy s x y = Some r"
proof (induction n arbitrary: x y)
  case 0
  then show ?case by simp
next
  case (Suc n)
  show ?case
  proof (cases "is_within_bounds (x + dx) (y + dy) s")
    case False
    with Suc.prems show ?thesis by (subst jump_loop.simps) (simp add: Let_def)
  next
    case True
    show ?thesis
    proof (cases "is_read_only (x + dx) (y + dy) s")
      case (Inl e)
      with True Suc.prems show ?thesis by (subst jump_loop.simps) (simp add: Let_def)
    next
      case (Inr ro)
      show ?thesis
      proof (cases ro)
        case False
        with True Inr Suc.prems show ?thesis by (subst jump_loop.simps) (simp add: Let_def)
      next
        case t: True
        with True Inr Suc.prems have "jump_steps n dx dy s (x + dx) (y + dy) = Some r"
          by (simp add: Let_def)
        from Suc.IH[OF this] True Inr t show ?thesis
          by (subst jump_loop.simps) (simp add: Let_def)
      qed
    qed
  qed
qed

text \<open>The walk of jump\_across from a position inside the bounds of a well-formed grid.\<close>

lemma unit_direction_cases:
  assumes "unit_direction dx dy"
  obtains "dx = - 1" "dy = 0" | "dx = 1" "dy = 0" | "dx = 0" "dy = - 1" | "dx = 0" "dy = 1"
  using assms unfolding unit_direction_def by auto

lemma leave_bounds:
  assumes "unit_direction dx dy" "is_within_bounds x y s" "\<not> is_within_bounds (x + dx) (y + dy) s" "1 \<le> k"
  shows "\<not> is_within_bounds (x + k * dx) (y + k * dy) s"
  using assms(1)
proof (cases rule: unit_direction_cases)
  case 1 with assms(2-) show ?thesis by (auto simp: is_within_bounds_def)
next
  case 2 with assms(2-) show ?thesis by (auto simp: is_within_bounds_def)
next
  case 3 with assms(2-) show ?thesis by (auto simp: is_within_bounds_def)
next
  case 4 with assms(2-) show ?thesis by (auto simp: is_within_bounds_def)
qed

lemma distance_nonneg:
  assumes "unit_direction dx dy" "is_within_bounds x y s"
  shows "0 \<le> int (current_layer s) - (dx * x + dy * y)"
  using assms(1)
proof (cases rule: unit_direction_cases)
  case 1 with assms(2) show ?thesis by (auto simp: is_within_bounds_def)
next
  case 2 with assms(2) show ?thesis by (auto simp: is_within_bounds_def)
next
  case 3 with assms(2) show ?thesis by (auto simp: is_within_bounds_def)
next
  case 4 with assms(2) show ?thesis by (auto simp: is_within_bounds_def)
qed

lemma distance_step:
  assumes "unit_direction dx dy"
  shows "int (current_layer s) - (dx * (x + dx) + dy * (y + dy))
          = int (current_layer s) - (dx * x + dy * y) - 1"
  using assms(1) by (cases rule: unit_direction_cases) simp_all

lemma walk:
  assumes inv: "store_inv (data s)" "data s (current_layer s, current_axiom s) \<noteq> None"
    and u: "unit_direction dx dy"
  shows "is_within_bounds x y s \<Longrightarrow> int (current_layer s) - (dx * x + dy * y) \<le> int n \<Longrightarrow>
         walk_result dx dy s x y (jump_steps (Suc n) dx dy s x y)"
proof (induction n arbitrary: x y)
  case 0
  have out: "\<not> is_within_bounds (x + dx) (y + dy) s"
  proof
    assume "is_within_bounds (x + dx) (y + dy) s"
    from distance_nonneg[OF u this] distance_step[OF u, of s x y] 0(2) show False by simp
  qed
  with leave_bounds[OF u 0(1) out] show ?case
    unfolding walk_result_def by (auto simp: Let_def)
next
  case (Suc n)
  show ?case
  proof (cases "is_within_bounds (x + dx) (y + dy) s")
    case False
    with leave_bounds[OF u Suc.prems(1) False] show ?thesis
      unfolding walk_result_def by (auto simp: Let_def)
  next
    case True
    note ro = is_read_only_inv[OF inv True]
    show ?thesis
    proof (cases "max \<bar>x + dx\<bar> \<bar>y + dy\<bar> < int (current_layer s)")
      case False
      with ro have f: "is_read_only (x + dx) (y + dy) s = Inr False" by simp
      have "jump_steps (Suc (Suc n)) dx dy s x y
              = Some (Inr (True, s\<lparr>cursor_x := x + 1 * dx, cursor_y := y + 1 * dy\<rparr>))"
        using True f by (simp add: Let_def)
      moreover have "is_within_bounds (x + 1 * dx) (y + 1 * dy) s" using True by simp
      moreover have "is_read_only (x + 1 * dx) (y + 1 * dy) s = Inr False" using f by simp
      ultimately show ?thesis
        unfolding walk_result_def by (intro disjI1 exI[of _ 1]) auto
    next
      case fr: True
      with ro have f: "is_read_only (x + dx) (y + dy) s = Inr True" by simp
      have rec: "jump_steps (Suc (Suc n)) dx dy s x y = jump_steps (Suc n) dx dy s (x + dx) (y + dy)"
        using True f by (simp add: Let_def)
      have "int (current_layer s) - (dx * (x + dx) + dy * (y + dy)) \<le> int n"
        using distance_step[OF u, of s x y] Suc.prems(2) by simp
      from Suc.IH[OF True this]
      have w: "walk_result dx dy s (x + dx) (y + dy) (jump_steps (Suc n) dx dy s (x + dx) (y + dy))" .
      show ?thesis
        using w unfolding rec walk_result_def
      proof (elim disjE exE conjE)
        fix k assume k: "1 \<le> (k::int)"
          and r: "jump_steps (Suc n) dx dy s (x + dx) (y + dy) =
                   Some (Inr (True, s\<lparr>cursor_x := x + dx + k * dx, cursor_y := y + dy + k * dy\<rparr>))"
          and wb: "is_within_bounds (x + dx + k * dx) (y + dy + k * dy) s"
          and nf: "is_read_only (x + dx + k * dx) (y + dy + k * dy) s = Inr False"
          and between: "\<forall>j. 1 \<le> j \<and> j < k \<longrightarrow>
             is_within_bounds (x + dx + j * dx) (y + dy + j * dy) s \<and>
             is_read_only (x + dx + j * dx) (y + dy + j * dy) s = Inr True"
        have e: "x + dx + j * dx = x + (j + 1) * dx" "y + dy + j * dy = y + (j + 1) * dy" for j
          by (simp_all add: algebra_simps)
        have btw: "is_within_bounds (x + j * dx) (y + j * dy) s \<and>
             is_read_only (x + j * dx) (y + j * dy) s = Inr True" if "1 \<le> j" "j < k + 1" for j
        proof (cases "j = 1")
          case True with \<open>is_within_bounds (x + dx) (y + dy) s\<close> f show ?thesis by simp
        next
          case False
          with that have "1 \<le> j - 1 \<and> j - 1 < k" by simp
          with between[rule_format, of "j - 1"] show ?thesis by (simp add: e)
        qed
        show "(\<exists>k\<ge>1. jump_steps (Suc n) dx dy s (x + dx) (y + dy) =
                 Some (Inr (True, s\<lparr>cursor_x := x + k * dx, cursor_y := y + k * dy\<rparr>)) \<and>
                 is_within_bounds (x + k * dx) (y + k * dy) s \<and>
                 is_read_only (x + k * dx) (y + k * dy) s = Inr False \<and>
                 (\<forall>j. 1 \<le> j \<and> j < k \<longrightarrow>
                      is_within_bounds (x + j * dx) (y + j * dy) s \<and>
                      is_read_only (x + j * dx) (y + j * dy) s = Inr True)) \<or>
              jump_steps (Suc n) dx dy s (x + dx) (y + dy) = Some (Inr (False, s)) \<and>
              (\<forall>k. 1 \<le> k \<and> is_within_bounds (x + k * dx) (y + k * dy) s \<longrightarrow>
                   is_read_only (x + k * dx) (y + k * dy) s = Inr True)"
        proof (intro disjI1 exI[of _ "k + 1"] conjI allI impI)
          show "1 \<le> k + 1" using k by simp
          show "jump_steps (Suc n) dx dy s (x + dx) (y + dy) =
                 Some (Inr (True, s\<lparr>cursor_x := x + (k + 1) * dx, cursor_y := y + (k + 1) * dy\<rparr>))"
            using r by (simp add: e)
          show "is_within_bounds (x + (k + 1) * dx) (y + (k + 1) * dy) s" using wb by (simp add: e)
          show "is_read_only (x + (k + 1) * dx) (y + (k + 1) * dy) s = Inr False" using nf by (simp add: e)
        next
          fix j assume "1 \<le> j \<and> j < k + 1"
          then show "is_within_bounds (x + j * dx) (y + j * dy) s" 
            "is_read_only (x + j * dx) (y + j * dy) s = Inr True" using btw by simp_all
        qed
      next
        assume r: "jump_steps (Suc n) dx dy s (x + dx) (y + dy) = Some (Inr (False, s))"
          and allf: "\<forall>k. 1 \<le> k \<and> is_within_bounds (x + dx + k * dx) (y + dy + k * dy) s \<longrightarrow>
                   is_read_only (x + dx + k * dx) (y + dy + k * dy) s = Inr True"
        have e: "x + dx + j * dx = x + (j + 1) * dx" "y + dy + j * dy = y + (j + 1) * dy" for j
          by (simp_all add: algebra_simps)
        have "is_read_only (x + k * dx) (y + k * dy) s = Inr True"
          if "1 \<le> k" "is_within_bounds (x + k * dx) (y + k * dy) s" for k
        proof (cases "k = 1")
          case True with f show ?thesis by simp
        next
          case False
          with that allf[rule_format, of "k - 1"] show ?thesis by (simp add: e)
        qed
        with r show "(\<exists>k\<ge>1. jump_steps (Suc n) dx dy s (x + dx) (y + dy) =
                 Some (Inr (True, s\<lparr>cursor_x := x + k * dx, cursor_y := y + k * dy\<rparr>)) \<and>
                 is_within_bounds (x + k * dx) (y + k * dy) s \<and>
                 is_read_only (x + k * dx) (y + k * dy) s = Inr False \<and>
                 (\<forall>j. 1 \<le> j \<and> j < k \<longrightarrow>
                      is_within_bounds (x + j * dx) (y + j * dy) s \<and>
                      is_read_only (x + j * dx) (y + j * dy) s = Inr True)) \<or>
              jump_steps (Suc n) dx dy s (x + dx) (y + dy) = Some (Inr (False, s)) \<and>
              (\<forall>k. 1 \<le> k \<and> is_within_bounds (x + k * dx) (y + k * dy) s \<longrightarrow>
                   is_read_only (x + k * dx) (y + k * dy) s = Inr True)"
          by blast
      qed
    qed
  qed
qed

lemma py_set2_square_pres:
  assumes "py_set2 g gy gx v = Inr g'" "square n g"
  shows "square n g'"
proof -
  from assms(1) obtain j i where "g' = g[j := (g ! j)[i := v]]"
    unfolding py_set2_def by (auto split: sum.splits)
  with assms(2) show ?thesis by (simp add: square_update)
qed

lemma fill_full_square: "fill_full g bc cs = Inr g' \<Longrightarrow> square n g \<Longrightarrow> square n g'"
proof (induction cs arbitrary: g)
  case Nil then show ?case by simp
next
  case (Cons c cs)
  obtain gx gy where c: "c = (gx, gy)" by (cases c)
  show ?case
  proof (cases "bc \<notin> set [DEFAULT_CHAR]")
    case False
    with Cons.prems c have "fill_full g bc cs = Inr g'" by simp
    from Cons.IH[OF this Cons.prems(2)] show ?thesis .
  next
    case True
    with Cons.prems c obtain g1 where s1: "py_set2 g gy gx bc = Inr g1" and r: "fill_full g1 bc cs = Inr g'"
      by (auto split: sum.splits)
    from Cons.IH[OF r py_set2_square_pres[OF s1 Cons.prems(2)]] show ?thesis .
  qed
qed

lemma fill_partial_square: "fill_partial g bc cs = Inr g' \<Longrightarrow> square n g \<Longrightarrow> square n g'"
proof (induction cs arbitrary: g)
  case Nil then show ?case by simp
next
  case (Cons c cs)
  obtain gx gy where c: "c = (gx, gy)" by (cases c)
  from Cons.prems c obtain g1 where s1: "py_set2 g gy gx bc = Inr g1" and r: "fill_partial g1 bc cs = Inr g'"
    by (auto split: sum.splits)
  from Cons.IH[OF r py_set2_square_pres[OF s1 Cons.prems(2)]] show ?case .
qed

lemma fill_random_square: "fill_random rm cl g cs r = Inr (g', r') \<Longrightarrow> square n g \<Longrightarrow> square n g'"
proof (induction cs arbitrary: g r)
  case Nil then show ?case by simp
next
  case (Cons c cs)
  obtain gx gy where c: "c = (gx, gy)" by (cases c)
  obtain ch r1 where ch: "rnd_choice rm r cl = (ch, r1)" by (cases "rnd_choice rm r cl")
  from Cons.prems c ch obtain g1 where s1: "py_set2 g gy gx ch = Inr g1"
    and r: "fill_random rm cl g1 cs r1 = Inr (g', r')"
    by (auto split: sum.splits)
  from Cons.IH[OF r py_set2_square_pres[OF s1 Cons.prems(2)]] show ?case .
qed

lemma store_inv_regrid:
  assumes "store_inv d" "d (N, a) = Some (g, ro)" "square (2 * N + 1) g'"
  shows "store_inv (d((N, a) \<mapsto> (g', ro)))"
proof -
  from store_invD[OF assms(1,2)] assms(3) have "grid_wf N (g', ro)"
    by (simp add: grid_wf_def)
  moreover have "0 < N \<longrightarrow> d (N - 1, a) \<noteq> None"
    using store_inv_chain[OF assms(1,2)] by blast
  ultimately show ?thesis using assms(1) by (intro store_inv_add)
qed

text \<open>What a round of the prefill loop can do to the store.\<close>

lemma prefill_step_cases:
  assumes "prefill_step rm mode fills (layer, axiom) (d, r) = Inr (d', r')"
  shows "\<exists>d1 grid ro ring_coords.
           ensure_layer_axiom layer axiom d = Inr d1 \<and> d1 (layer, axiom) = Some (grid, ro) \<and>
           ring_unfrozen ro (int layer) (ring_positions layer) [] = Inr ring_coords \<and>
           (d' = d1 \<and>
              (ring_coords = [] \<or>
               (\<exists>chars_list. map_of fills axiom = Some chars_list \<and>
                  (mode = ''full'' \<or> mode = ''partial'' \<longrightarrow> \<not> layer \<le> length chars_list) \<and>
                  (mode = ''random'' \<longrightarrow> chars_list = [])))
            \<or> (\<exists>grid'. d' = d1((layer, axiom) \<mapsto> (grid', ro)) \<and> ring_coords \<noteq> [] \<and>
                  refilled rm mode fills layer axiom grid ring_coords grid'))"
proof -
  from assms obtain d1 where e: "ensure_layer_axiom layer axiom d = Inr d1"
    unfolding prefill_step_def by (auto split: sum.splits)
  from assms e obtain grid ro where c: "d1 (layer, axiom) = Some (grid, ro)"
    unfolding prefill_step_def by (auto split: option.splits)
  from assms e c obtain ring_coords where
    rc: "ring_unfrozen ro (int layer) (ring_positions layer) [] = Inr ring_coords"
    unfolding prefill_step_def ring_positions_def by (auto simp: Let_def split: sum.splits)
  show ?thesis
  proof (cases "ring_coords = []")
    case True
    with assms e c rc have "d' = d1"
      unfolding prefill_step_def ring_positions_def by (simp add: Let_def)
    with e c rc True show ?thesis by blast
  next
    case False
    with assms e c rc obtain chars_list where cl: "map_of fills axiom = Some chars_list"
      unfolding prefill_step_def ring_positions_def by (auto simp: Let_def split: option.splits)
    let ?base = "if layer \<le> length chars_list then Some (chars_list ! (layer - 1)) else None"
    have body: "(if mode = ''full'' then
                (case ?base of
                   None \<Rightarrow> Inr (d1, r)
                 | Some bc \<Rightarrow>
                     (case fill_full grid bc ring_coords of
                        Inl e \<Rightarrow> Inl e
                      | Inr grid' \<Rightarrow> Inr (d1((layer, axiom) \<mapsto> (grid', ro)), r)))
              else if mode = ''partial'' then
                (case ?base of
                   None \<Rightarrow> Inr (d1, r)
                 | Some bc \<Rightarrow>
                     (case rnd_sample rm r ring_coords (length ring_coords div 2) of (selected, r') \<Rightarrow>
                      case fill_partial grid bc selected of
                        Inl e \<Rightarrow> Inl e
                      | Inr grid' \<Rightarrow> Inr (d1((layer, axiom) \<mapsto> (grid', ro)), r')))
              else if mode = ''random'' then
                (if length chars_list > 0 then
                   (case rnd_sample rm r ring_coords (length ring_coords div 2) of (selected, r') \<Rightarrow>
                    case fill_random rm chars_list grid selected r' of
                      Inl e \<Rightarrow> Inl e
                    | Inr (grid', r'') \<Rightarrow> Inr (d1((layer, axiom) \<mapsto> (grid', ro)), r''))
                 else Inr (d1, r))
              else Inr (d1, r)) = Inr (d', r')"
      using assms e c rc cl False
      unfolding prefill_step_def ring_positions_def by (simp add: Let_def)
    consider (full) "mode = ''full''" | (partial) "mode = ''partial''" | (random) "mode = ''random''"
      | (other) "mode \<noteq> ''full''" "mode \<noteq> ''partial''" "mode \<noteq> ''random''" by blast
    then have "(d' = d1 \<and> (mode = ''full'' \<or> mode = ''partial'' \<longrightarrow> \<not> layer \<le> length chars_list) \<and>
                  (mode = ''random'' \<longrightarrow> chars_list = []))
            \<or> (\<exists>grid'. d' = d1((layer, axiom) \<mapsto> (grid', ro)) \<and>
                  refilled rm mode fills layer axiom grid ring_coords grid')"
    proof cases
      case full
      with body cl show ?thesis
        unfolding refilled_def by (auto split: if_splits sum.splits)
    next
      case partial
      obtain sel r1 where sm: "rnd_sample rm r ring_coords (length ring_coords div 2) = (sel, r1)"
        by (cases "rnd_sample rm r ring_coords (length ring_coords div 2)")
      then have sel: "sel = fst (rnd_sample rm r ring_coords (length ring_coords div 2))" by simp
      show ?thesis
      proof (cases "layer \<le> length chars_list")
        case False
        with body partial show ?thesis by simp
      next
        case True
        with body partial sm obtain grid' where
          "fill_partial grid (chars_list ! (layer - 1)) sel = Inr grid'"
          "d' = d1((layer, axiom) \<mapsto> (grid', ro))"
          by (auto split: sum.splits)
        with cl partial True sel show ?thesis
          unfolding refilled_def by blast
      qed
    next
      case random
      obtain sel r1 where sm: "rnd_sample rm r ring_coords (length ring_coords div 2) = (sel, r1)"
        by (cases "rnd_sample rm r ring_coords (length ring_coords div 2)")
      then have sel: "sel = fst (rnd_sample rm r ring_coords (length ring_coords div 2))" by simp
      show ?thesis
      proof (cases "chars_list = []")
        case True
        with body random show ?thesis by simp
      next
        case False
        with body random sm obtain grid' r2 where
          "fill_random rm chars_list grid sel r1 = Inr (grid', r2)"
          "d' = d1((layer, axiom) \<mapsto> (grid', ro))"
          by (auto split: sum.splits)
        with cl random sel show ?thesis
          unfolding refilled_def by blast
      qed
    next
      case other
      with body show ?thesis by simp
    qed
    with e c rc cl False show ?thesis by blast
  qed
qed

lemma refilled_square:
  assumes "refilled rm mode fills layer axiom grid rc grid'" "square n grid"
  shows "square n grid'"
  using assms unfolding refilled_def
  by (auto dest: fill_full_square fill_partial_square fill_random_square)

lemma prefill_step_inv:
  assumes "prefill_step rm mode fills la (d, r) = Inr (d', r')" "store_inv d"
  shows "store_inv d' \<and> (\<forall>k. d k \<noteq> None \<longrightarrow> d' k \<noteq> None)"
proof -
  obtain layer axiom where la: "la = (layer, axiom)" by (cases la)
  from prefill_step_cases[OF assms(1)[unfolded la]] obtain d1 grid ro rc where
    e: "ensure_layer_axiom layer axiom d = Inr d1" and c: "d1 (layer, axiom) = Some (grid, ro)"
    and alt: "d' = d1 \<or> (\<exists>grid'. d' = d1((layer, axiom) \<mapsto> (grid', ro)) \<and>
                  refilled rm mode fills layer axiom grid rc grid')"
    by blast
  from ensure_spec[OF assms(2), of layer axiom] e have en: "ensured layer axiom d d1" by simp
  note inv1 = ensured_inv[OF en]
  have keep: "d1 k \<noteq> None" if "d k \<noteq> None" for k
    using ensured_keeps[OF en that] that by simp
  from alt show ?thesis
  proof
    assume "d' = d1"
    with inv1 keep show ?thesis by simp
  next
    assume "\<exists>grid'. d' = d1((layer, axiom) \<mapsto> (grid', ro)) \<and>
                  refilled rm mode fills layer axiom grid rc grid'"
    then obtain grid' where d': "d' = d1((layer, axiom) \<mapsto> (grid', ro))"
      and rf: "refilled rm mode fills layer axiom grid rc grid'" by blast
    from store_invD[OF inv1 c] have "square (2 * layer + 1) grid" by (simp add: grid_wf_def)
    from refilled_square[OF rf this] have "square (2 * layer + 1) grid'" .
    from store_inv_regrid[OF inv1 c this] d' keep show ?thesis by simp
  qed
qed

lemma prefill_loop_inv:
  "prefill_loop rm mode fills ps (d, r) = Inr (d', r') \<Longrightarrow> store_inv d \<Longrightarrow>
   store_inv d' \<and> (\<forall>k. d k \<noteq> None \<longrightarrow> d' k \<noteq> None)"
proof (induction ps arbitrary: d r)
  case Nil
  then show ?case by simp
next
  case (Cons p ps)
  from Cons.prems(1) obtain d1 r1 where s: "prefill_step rm mode fills p (d, r) = Inr (d1, r1)"
    and l: "prefill_loop rm mode fills ps (d1, r1) = Inr (d', r')"
    by (auto split: sum.splits)
  from prefill_step_inv[OF s Cons.prems(2)] Cons.IH[OF l] show ?case by blast
qed

lemma prefill_layers_inv:
  assumes "prefill_layers rm mode fA fB fC fD fE fF fH fI fJ d = Inr d'" "store_inv d"
  shows "store_inv d' \<and> (\<forall>k. d k \<noteq> None \<longrightarrow> d' k \<noteq> None)"
proof -
  have "\<exists>fills ps r0. (case prefill_loop rm mode fills ps (d, r0) of
            Inl e \<Rightarrow> Inl e | Inr (d', r) \<Rightarrow> Inr d') = Inr d'"
    using assms(1) unfolding prefill_layers_def Let_def by blast
  then obtain fills ps r0 where
    h: "(case prefill_loop rm mode fills ps (d, r0) of
            Inl e \<Rightarrow> Inl e | Inr (d', r) \<Rightarrow> Inr d') = Inr d'" by blast
  then obtain r' where "prefill_loop rm mode fills ps (d, r0) = Inr (d', r')"
    by (cases "prefill_loop rm mode fills ps (d, r0)") auto
  from prefill_loop_inv[OF this assms(2)] show ?thesis .
qed

lemma bounds_cursor_irrelevant [simp]:
  "is_within_bounds x y (s\<lparr>cursor_x := a\<rparr>) = is_within_bounds x y s"
  "is_within_bounds x y (s\<lparr>cursor_y := b\<rparr>) = is_within_bounds x y s"
  "is_read_only x y (s\<lparr>cursor_x := a\<rparr>) = is_read_only x y s"
  "is_read_only x y (s\<lparr>cursor_y := b\<rparr>) = is_read_only x y s"
  by (simp_all add: is_within_bounds_def is_read_only_def Let_def split: option.splits)

lemma state_invI:
  assumes "store_inv (data s)" "data s (current_layer s, current_axiom s) \<noteq> None"
    "is_within_bounds (cursor_x s) (cursor_y s) s"
    "\<not> max \<bar>cursor_x s\<bar> \<bar>cursor_y s\<bar> < int (current_layer s)"
  shows "state_inv s"
  unfolding state_inv_def using assms is_read_only_inv[OF assms(1,2,3)] by simp

lemma state_inv_ring:
  assumes "state_inv s"
  shows "max \<bar>cursor_x s\<bar> \<bar>cursor_y s\<bar> = int (current_layer s)"
proof -
  from assms have a: "store_inv (data s)" "data s (current_layer s, current_axiom s) \<noteq> None"
    "is_within_bounds (cursor_x s) (cursor_y s) s" "is_read_only (cursor_x s) (cursor_y s) s = Inr False"
    unfolding state_inv_def by simp_all
  from is_read_only_inv[OF a(1,2,3)] a(4) have "\<not> max \<bar>cursor_x s\<bar> \<bar>cursor_y s\<bar> < int (current_layer s)"
    by simp
  with a(3) show ?thesis unfolding is_within_bounds_def by auto
qed

lemma go_to_layer_axiom_inv:
  assumes "store_inv (data s)"
  shows "\<exists>s'. go_to_layer_axiom layer axiom s = Inr s' \<and> state_inv s' \<and>
           current_layer s' = layer \<and> current_axiom s' = axiom \<and>
           cursor_x s' = - int layer \<and> cursor_y s' = - int layer \<and>
           ensure_layer_axiom layer axiom (data s) = Inr (data s')"
proof -
  from ensure_spec[OF assms, of layer axiom] obtain d' where
    e: "ensure_layer_axiom layer axiom (data s) = Inr d'" and en: "ensured layer axiom (data s) d'"
    by blast
  let ?s' = "s\<lparr>current_layer := layer, current_axiom := axiom, data := d',
               cursor_x := - int layer, cursor_y := - int layer\<rparr>"
  have g: "go_to_layer_axiom layer axiom s = Inr ?s'"
    unfolding go_to_layer_axiom_def using e by (simp add: Let_def)
  have "state_inv ?s'"
    using ensured_inv[OF en] ensured_there[OF en]
    by (intro state_invI) (simp_all add: is_within_bounds_def)
  with g e show ?thesis by simp
qed

lemma distance_le:
  assumes "unit_direction dx dy" "is_within_bounds x y s"
  shows "int (current_layer s) - (dx * x + dy * y) \<le> int (2 * current_layer s)"
  using assms(1)
proof (cases rule: unit_direction_cases)
  case 1 with assms(2) show ?thesis by (auto simp: is_within_bounds_def)
next
  case 2 with assms(2) show ?thesis by (auto simp: is_within_bounds_def)
next
  case 3 with assms(2) show ?thesis by (auto simp: is_within_bounds_def)
next
  case 4 with assms(2) show ?thesis by (auto simp: is_within_bounds_def)
qed

lemma jump_across_walk:
  assumes "state_inv s" "unit_direction dx dy"
  shows "walk_result dx dy s (cursor_x s) (cursor_y s)
           (jump_steps (2 * current_layer s + 1) dx dy s (cursor_x s) (cursor_y s))"
proof -
  from assms(1) have a: "store_inv (data s)" "data s (current_layer s, current_axiom s) \<noteq> None"
    "is_within_bounds (cursor_x s) (cursor_y s) s"
    unfolding state_inv_def by simp_all
  from walk[OF a(1,2) assms(2) a(3) distance_le[OF assms(2) a(3)]]
  show ?thesis by simp
qed

lemma move_cursor_inv:
  assumes "state_inv s" "unit_direction dx dy"
  shows "\<exists>s'. move_cursor dx dy s = Some (Inr s') \<and> state_inv s' \<and>
           current_layer s' = current_layer s \<and> current_axiom s' = current_axiom s \<and>
           data s' = data s"
proof -
  let ?r = "jump_steps (2 * current_layer s + 1) dx dy s (cursor_x s) (cursor_y s)"
  from jump_across_walk[OF assms] have w: "walk_result dx dy s (cursor_x s) (cursor_y s) ?r" .
  from assms(1) have a: "store_inv (data s)" "data s (current_layer s, current_axiom s) \<noteq> None"
    unfolding state_inv_def by simp_all
  from w show ?thesis
    unfolding walk_result_def
  proof (elim disjE exE conjE)
    fix k assume r: "?r = Some (Inr (True, s\<lparr>cursor_x := cursor_x s + k * dx, cursor_y := cursor_y s + k * dy\<rparr>))"
      and wb: "is_within_bounds (cursor_x s + k * dx) (cursor_y s + k * dy) s"
      and nf: "is_read_only (cursor_x s + k * dx) (cursor_y s + k * dy) s = Inr False"
    let ?s' = "s\<lparr>cursor_x := cursor_x s + k * dx, cursor_y := cursor_y s + k * dy\<rparr>"
    from jump_steps_sound[OF r] have "move_cursor dx dy s = Some (Inr ?s')"
      unfolding move_cursor_def jump_across_def by simp
    moreover have "state_inv ?s'"
      unfolding state_inv_def using a wb nf by simp
    ultimately show ?thesis by simp
  next
    assume r: "?r = Some (Inr (False, s))"
    from jump_steps_sound[OF r] have "move_cursor dx dy s = Some (Inr s)"
      unfolding move_cursor_def jump_across_def by simp
    with assms(1) show ?thesis by simp
  qed
qed

lemma py_set2_center:
  assumes "square (2 * N + 1) g" "max \<bar>x\<bar> \<bar>y\<bar> \<le> int N"
  shows "py_set2 g (y + int N) (x + int N) v =
           Inr (g[nat (y + int N) := (g ! nat (y + int N))[nat (x + int N) := v]])"
proof -
  from assms(2) have b: "nat (y + int N) < 2 * N + 1" "nat (x + int N) < 2 * N + 1" by auto
  from assms(2) have i: "y + int N = int (nat (y + int N))" "x + int N = int (nat (x + int N))"
    by auto
  show ?thesis
    by (subst i(1), subst i(2)) (use b in \<open>simp only: py_set2_square[OF assms(1)] if_True simp_thms\<close>)
qed

lemma insert_char_inv:
  assumes "state_inv s"
  shows "\<exists>s' g ro. insert_char ch s = Inr s' \<and> state_inv s' \<and>
           data s (current_layer s, current_axiom s) = Some (g, ro) \<and>
           s' = s\<lparr>data := (data s)((current_layer s, current_axiom s) \<mapsto>
                   (g[nat (cursor_y s + int (current_layer s)) :=
                        (g ! nat (cursor_y s + int (current_layer s)))
                          [nat (cursor_x s + int (current_layer s)) := ch]], ro))\<rparr>"
proof -
  from assms have a: "store_inv (data s)" "data s (current_layer s, current_axiom s) \<noteq> None"
    "is_within_bounds (cursor_x s) (cursor_y s) s" "is_read_only (cursor_x s) (cursor_y s) s = Inr False"
    unfolding state_inv_def by simp_all
  from a(2) obtain g ro where c: "data s (current_layer s, current_axiom s) = Some (g, ro)" by auto
  from store_invD[OF a(1) c] have sq: "square (2 * current_layer s + 1) g"
    by (simp add: grid_wf_def)
  from a(3) have b: "max \<bar>cursor_x s\<bar> \<bar>cursor_y s\<bar> \<le> int (current_layer s)"
    unfolding is_within_bounds_def by auto
  let ?g' = "g[nat (cursor_y s + int (current_layer s)) :=
                        (g ! nat (cursor_y s + int (current_layer s)))
                          [nat (cursor_x s + int (current_layer s)) := ch]]"
  let ?s' = "s\<lparr>data := (data s)((current_layer s, current_axiom s) \<mapsto> (?g', ro))\<rparr>"
  from a(4) c have ro: "py_get2 ro (cursor_y s + int (current_layer s)) (cursor_x s + int (current_layer s)) = Inr False"
    unfolding is_read_only_def by (simp add: Let_def)
  have ins: "insert_char ch s = Inr ?s'"
    unfolding insert_char_def using c ro py_set2_center[OF sq b] by (simp add: Let_def)
  have inv': "store_inv (data ?s')"
    using store_inv_regrid[OF a(1) c square_update[OF sq]] by simp
  have "state_inv ?s'"
    using inv' state_inv_ring[OF assms] a(3)
    by (intro state_invI) (simp_all add: is_within_bounds_def)
  with ins c show ?thesis by blast
qed

lemma handle_key_inv:
  assumes "state_inv s"
  shows "\<exists>s'. handle_key k s = Some (Inr s') \<and> state_inv s'"
proof -
  from assms have inv: "store_inv (data s)" unfolding state_inv_def by simp
  have g: "\<exists>s'. Some (go_to_layer_axiom layer axiom s) = Some (Inr s') \<and> state_inv s'" for layer axiom
    using go_to_layer_axiom_inv[OF inv, of layer axiom] by auto
  have m: "\<exists>s'. move_cursor dx dy s = Some (Inr s') \<and> state_inv s'" if "unit_direction dx dy" for dx dy
    using move_cursor_inv[OF assms that] by auto
  have i: "\<exists>s'. Some (insert_char ch s) = Some (Inr s') \<and> state_inv s'" for ch
    using insert_char_inv[OF assms, of ch] by auto
  have u: "unit_direction (- 1) 0" "unit_direction 1 0" "unit_direction 0 (- 1)" "unit_direction 0 1"
    by (simp_all add: unit_direction_def)
  show ?thesis
    unfolding handle_key_def
    using assms g i m[OF u(1)] m[OF u(2)] m[OF u(3)] m[OF u(4)]
    by (simp only: if_split[where P = "\<lambda>r. \<exists>s'. r = Some (Inr s') \<and> state_inv s'"]) blast
qed

lemma initial_store_inv: "store_inv (data initial_state)"
  by (simp add: initial_state_def store_inv_def)

lemma reachable_state_inv: "reachable rm s \<Longrightarrow> state_inv s"
proof (induction rule: reachable.induct)
  case (start s)
  with go_to_layer_axiom_inv[OF initial_store_inv, of 0 "''A''"] show ?case by simp
next
  case (start_prefilled mode fillA fillB fillC fillD fillE fillF fillH fillI fillJ d s)
  from prefill_layers_inv[OF start_prefilled(1) initial_store_inv]
  have "store_inv (data (initial_state\<lparr>data := d\<rparr>))" by simp
  from go_to_layer_axiom_inv[OF this, of 0 "''A''"] start_prefilled(2) show ?case by simp
next
  case (key s k s')
  with handle_key_inv[OF key.IH, of k] show ?case by simp
next
  case (prefill s mode fillA fillB fillC fillD fillE fillF fillH fillI fillJ d)
  from prefill.IH have a: "store_inv (data s)" "data s (current_layer s, current_axiom s) \<noteq> None"
    "is_within_bounds (cursor_x s) (cursor_y s) s"
    unfolding state_inv_def by simp_all
  from prefill_layers_inv[OF prefill(2) a(1)] have d: "store_inv d" "d (current_layer s, current_axiom s) \<noteq> None"
    using a(2) by simp_all
  show ?case
    using d state_inv_ring[OF prefill.IH] a(3)
    by (intro state_invI) (simp_all add: is_within_bounds_def)
qed

lemma py_index_lt: "py_index n i = Inr j \<Longrightarrow> j < n"
  unfolding py_index_def by (auto split: if_splits)

lemma py_get2_after_set2:
  assumes "py_set2 g gy gx v = Inr g'"
  shows "py_get2 g' gy gx = Inr v"
proof -
  from assms obtain j i where j: "py_index (length g) gy = Inr j"
    and i: "py_index (length (g ! j)) gx = Inr i" and g': "g' = g[j := (g ! j)[i := v]]"
    unfolding py_set2_def by (auto split: sum.splits)
  from py_index_lt[OF j] py_index_lt[OF i] have lt: "j < length g" "i < length (g ! j)" .
  then show ?thesis
    unfolding py_get2_def g' using j i by simp
qed

text \<open>
  Claim C4. insert\_char looks the frozen flag of the cursor cell up. When the flag is
  set, the call returns the state as it was, without an error. When the flag is clear
  and the call returns, exactly the cursor cell of the current grid has been replaced by
  the written symbol (Python index semantics give the row j and column i of that cell),
  everything else in the state is as before, and reading the cell back gives the symbol.
\<close>
theorem insert_char_writes_iff_unfrozen:
  "(is_read_only (cursor_x s) (cursor_y s) s = Inr True \<longrightarrow> insert_char ch s = Inr s) \<and>
   (is_read_only (cursor_x s) (cursor_y s) s = Inr False \<longrightarrow> insert_char ch s = Inr s' \<longrightarrow>
      (\<exists>grid read_only j i.
         data s (current_layer s, current_axiom s) = Some (grid, read_only) \<and>
         py_index (length grid) (cursor_y s + int (current_layer s)) = Inr j \<and>
         py_index (length (grid ! j)) (cursor_x s + int (current_layer s)) = Inr i \<and>
         s' = s\<lparr>data := (data s)((current_layer s, current_axiom s) \<mapsto>
                        (grid[j := (grid ! j)[i := ch]], read_only))\<rparr> \<and>
         py_get2 (grid[j := (grid ! j)[i := ch]])
            (cursor_y s + int (current_layer s)) (cursor_x s + int (current_layer s)) = Inr ch \<and>
         is_read_only (cursor_x s') (cursor_y s') s' = Inr False))"
proof (intro conjI impI)
  assume "is_read_only (cursor_x s) (cursor_y s) s = Inr True"
  then show "insert_char ch s = Inr s"
    unfolding is_read_only_def insert_char_def
    by (auto simp: Let_def split: option.splits)
next
  assume f: "is_read_only (cursor_x s) (cursor_y s) s = Inr False" and ins: "insert_char ch s = Inr s'"
  let ?gy = "cursor_y s + int (current_layer s)" and ?gx = "cursor_x s + int (current_layer s)"
  from f obtain grid read_only where c: "data s (current_layer s, current_axiom s) = Some (grid, read_only)"
    and ro: "py_get2 read_only ?gy ?gx = Inr False"
    unfolding is_read_only_def by (auto simp: Let_def split: option.splits)
  from ins c ro obtain grid' where w: "py_set2 grid ?gy ?gx ch = Inr grid'"
    and s': "s' = s\<lparr>data := (data s)((current_layer s, current_axiom s) \<mapsto> (grid', read_only))\<rparr>"
    unfolding insert_char_def by (auto simp: Let_def split: sum.splits)
  from w obtain j i where j: "py_index (length grid) ?gy = Inr j"
    and i: "py_index (length (grid ! j)) ?gx = Inr i" and g': "grid' = grid[j := (grid ! j)[i := ch]]"
    unfolding py_set2_def by (auto split: sum.splits)
  have rd: "py_get2 (grid[j := (grid ! j)[i := ch]]) ?gy ?gx = Inr ch"
    using py_get2_after_set2[OF w] g' by simp
  have fl: "is_read_only (cursor_x s') (cursor_y s') s' = Inr False"
    unfolding s' is_read_only_def using ro by (simp add: Let_def)
  from c j i s' g' rd fl
  show "\<exists>grid read_only j i.
         data s (current_layer s, current_axiom s) = Some (grid, read_only) \<and>
         py_index (length grid) (cursor_y s + int (current_layer s)) = Inr j \<and>
         py_index (length (grid ! j)) (cursor_x s + int (current_layer s)) = Inr i \<and>
         s' = s\<lparr>data := (data s)((current_layer s, current_axiom s) \<mapsto>
                        (grid[j := (grid ! j)[i := ch]], read_only))\<rparr> \<and>
         py_get2 (grid[j := (grid ! j)[i := ch]])
            (cursor_y s + int (current_layer s)) (cursor_x s + int (current_layer s)) = Inr ch \<and>
         is_read_only (cursor_x s') (cursor_y s') s' = Inr False"
    by blast
qed

text \<open>
  Claim C10. In every reachable state and for every unit direction, the loop of
  jump\_across returns within 2 * current\_layer + 1 rounds: the budgeted loop with that
  budget returns, jump\_across returns the same, and the result is either a move onto an
  unfrozen cell inside the bounds or the failure that leaves the state as it was.
\<close>
theorem jump_across_terminates:
  assumes "reachable rm s" "unit_direction dx dy"
  shows "\<exists>moved s'.
           jump_steps (2 * current_layer s + 1) dx dy s (cursor_x s) (cursor_y s) = Some (Inr (moved, s')) \<and>
           jump_across dx dy s = Some (Inr (moved, s')) \<and>
           (if moved then is_within_bounds (cursor_x s') (cursor_y s') s \<and>
                          is_read_only (cursor_x s') (cursor_y s') s = Inr False
            else s' = s)"
proof -
  define res where "res = jump_steps (2 * current_layer s + 1) dx dy s (cursor_x s) (cursor_y s)"
  have ja: "jump_across dx dy s = Some x" if "res = Some x" for x
    using jump_steps_sound[OF that[unfolded res_def]] unfolding jump_across_def .
  from jump_across_walk[OF reachable_state_inv[OF assms(1)] assms(2)]
  have "walk_result dx dy s (cursor_x s) (cursor_y s) res" unfolding res_def .
  then have "\<exists>moved s'. res = Some (Inr (moved, s')) \<and>
           jump_across dx dy s = Some (Inr (moved, s')) \<and>
           (if moved then is_within_bounds (cursor_x s') (cursor_y s') s \<and>
                          is_read_only (cursor_x s') (cursor_y s') s = Inr False
            else s' = s)"
    unfolding walk_result_def
  proof (elim disjE exE conjE)
    fix k assume r: "res = Some (Inr (True, s\<lparr>cursor_x := cursor_x s + k * dx, cursor_y := cursor_y s + k * dy\<rparr>))"
      and wb: "is_within_bounds (cursor_x s + k * dx) (cursor_y s + k * dy) s"
      and nf: "is_read_only (cursor_x s + k * dx) (cursor_y s + k * dy) s = Inr False"
    from ja[OF r] r wb nf show ?thesis
      by (intro exI[of _ True] exI[of _ "s\<lparr>cursor_x := cursor_x s + k * dx, cursor_y := cursor_y s + k * dy\<rparr>"]) simp
  next
    assume r: "res = Some (Inr (False, s))"
    from ja[OF r] r show ?thesis
      by (intro exI[of _ False] exI[of _ s]) simp
  qed
  then show ?thesis unfolding res_def .
qed

text \<open>
  Claim C3. In every reachable state, move\_cursor in a unit direction returns, and
  either the cursor has moved k >= 1 cells in that direction to a cell that is inside
  the bounds and unfrozen, every cell passed on the way (1 <= j < k) being inside the
  bounds and frozen, and nothing but the cursor has changed; or the state is exactly as
  before, and every cell inside the bounds in that direction is frozen.
\<close>
theorem move_cursor_skips_frozen:
  assumes "reachable rm s" "unit_direction dx dy"
  shows "(\<exists>k. 1 \<le> k \<and>
            move_cursor dx dy s =
              Some (Inr (s\<lparr>cursor_x := cursor_x s + k * dx, cursor_y := cursor_y s + k * dy\<rparr>)) \<and>
            is_within_bounds (cursor_x s + k * dx) (cursor_y s + k * dy) s \<and>
            is_read_only (cursor_x s + k * dx) (cursor_y s + k * dy) s = Inr False \<and>
            (\<forall>j. 1 \<le> j \<and> j < k \<longrightarrow>
               is_within_bounds (cursor_x s + j * dx) (cursor_y s + j * dy) s \<and>
               is_read_only (cursor_x s + j * dx) (cursor_y s + j * dy) s = Inr True))
       \<or> (move_cursor dx dy s = Some (Inr s) \<and>
          (\<forall>k. 1 \<le> k \<and> is_within_bounds (cursor_x s + k * dx) (cursor_y s + k * dy) s \<longrightarrow>
             is_read_only (cursor_x s + k * dx) (cursor_y s + k * dy) s = Inr True))"
proof -
  let ?r = "jump_steps (2 * current_layer s + 1) dx dy s (cursor_x s) (cursor_y s)"
  have mv: "move_cursor dx dy s = Some (Inr s')" if "?r = Some (Inr (b, s'))" for b s'
    using jump_steps_sound[OF that] unfolding move_cursor_def jump_across_def by simp
  from jump_across_walk[OF reachable_state_inv[OF assms(1)] assms(2)]
  have "walk_result dx dy s (cursor_x s) (cursor_y s) ?r" .
  then show ?thesis
    unfolding walk_result_def
  proof (elim disjE exE conjE)
    fix k assume k: "1 \<le> (k::int)"
      and r: "?r = Some (Inr (True, s\<lparr>cursor_x := cursor_x s + k * dx, cursor_y := cursor_y s + k * dy\<rparr>))"
      and rest: "is_within_bounds (cursor_x s + k * dx) (cursor_y s + k * dy) s"
        "is_read_only (cursor_x s + k * dx) (cursor_y s + k * dy) s = Inr False"
        "\<forall>j. 1 \<le> j \<and> j < k \<longrightarrow>
               is_within_bounds (cursor_x s + j * dx) (cursor_y s + j * dy) s \<and>
               is_read_only (cursor_x s + j * dx) (cursor_y s + j * dy) s = Inr True"
    from k mv[OF r] rest show ?thesis by blast
  next
    assume r: "?r = Some (Inr (False, s))"
      and rest: "\<forall>k. 1 \<le> k \<and> is_within_bounds (cursor_x s + k * dx) (cursor_y s + k * dy) s \<longrightarrow>
             is_read_only (cursor_x s + k * dx) (cursor_y s + k * dy) s = Inr True"
    from mv[OF r] rest show ?thesis by blast
  qed
qed

text \<open>
  Claim C7. In every reachable state the cursor is inside the bounds of the current grid
  and the cell it addresses is unfrozen. From such a state, go\_to\_layer\_axiom to any
  layer and axiom returns with the cursor on the corner (-layer, -layer), which is
  unfrozen; move\_cursor in a unit direction and insert\_char return with the cursor on an
  unfrozen cell.
\<close>
theorem cursor_on_unfrozen_cell:
  assumes "reachable rm s"
  shows "is_within_bounds (cursor_x s) (cursor_y s) s \<and>
         is_read_only (cursor_x s) (cursor_y s) s = Inr False \<and>
         (\<forall>layer axiom. \<exists>s'. go_to_layer_axiom layer axiom s = Inr s' \<and>
            cursor_x s' = - int layer \<and> cursor_y s' = - int layer \<and>
            is_read_only (cursor_x s') (cursor_y s') s' = Inr False) \<and>
         (\<forall>dx dy. unit_direction dx dy \<longrightarrow>
            (\<exists>s'. move_cursor dx dy s = Some (Inr s') \<and>
                  is_read_only (cursor_x s') (cursor_y s') s' = Inr False)) \<and>
         (\<forall>ch. \<exists>s'. insert_char ch s = Inr s' \<and>
            is_read_only (cursor_x s') (cursor_y s') s' = Inr False)"
proof -
  note inv = reachable_state_inv[OF assms]
  then have st: "store_inv (data s)" unfolding state_inv_def by simp
  have g: "\<exists>s'. go_to_layer_axiom layer axiom s = Inr s' \<and>
            cursor_x s' = - int layer \<and> cursor_y s' = - int layer \<and>
            is_read_only (cursor_x s') (cursor_y s') s' = Inr False" for layer axiom
    using go_to_layer_axiom_inv[OF st, of layer axiom] unfolding state_inv_def by auto
  have m: "\<exists>s'. move_cursor dx dy s = Some (Inr s') \<and>
                  is_read_only (cursor_x s') (cursor_y s') s' = Inr False"
    if "unit_direction dx dy" for dx dy
    using move_cursor_inv[OF inv that] unfolding state_inv_def by auto
  have i: "\<exists>s'. insert_char ch s = Inr s' \<and>
            is_read_only (cursor_x s') (cursor_y s') s' = Inr False" for ch
    using insert_char_inv[OF inv, of ch] unfolding state_inv_def by auto
  from inv g m i show ?thesis unfolding state_inv_def by blast
qed

text \<open>A deterministic stand-in for the random module: sample takes the first k, choice the first.\<close>

text \<open>
  A short session: \<open>run\<close> starts (state \<open>session0\<close>), the key \<open>+\<close> opens layer 1
  (\<open>session1\<close>), the down key moves the cursor to (-1, 0) (\<open>session2\<close>).
\<close>

lemma ensure_present: "d (n, a) \<noteq> None \<Longrightarrow> ensure_layer_axiom n a d = Inr d"
  by (auto simp: ensure_unfold)

lemma ensure_0_new: "d (0, a) = None \<Longrightarrow> ensure_layer_axiom 0 a d = Inr (d((0, a) \<mapsto> grid0))"
  by (simp add: ensure_unfold create_0 grid0_def)

lemma ensure_1_on_0:
  assumes "d (Suc 0, a) = None" "d (0, a) = Some grid0"
  shows "ensure_layer_axiom (Suc 0) a d = Inr (d((Suc 0, a) \<mapsto> grid1))"
proof -
  from assms(2) have e0: "ensure_layer_axiom 0 a d = Inr d" by (simp add: ensure_present)
  have "create_layer_axiom (Suc 0) a d = Inr (d((Suc 0, a) \<mapsto> grid1))"
    unfolding create_Suc e0 using copy_prev_0 assms(2) by (simp add: grid0_def)
  with assms(1) show ?thesis by (simp add: ensure_unfold)
qed

lemma reachable_session0: "reachable rm session0"
proof (rule reachable.start)
  show "go_to_layer_axiom 0 ''A'' initial_state = Inr session0"
    unfolding go_to_layer_axiom_def initial_state_def session0_def
    by (simp add: ensure_0_new)
qed

lemma handle_plus_session0: "handle_key 43 session0 = Some (Inr session1)"
  unfolding handle_key_def KEY_F_def go_to_layer_axiom_def session0_def session1_def
  by (simp add: ensure_1_on_0)

lemma reachable_session1: "reachable rm session1"
  by (rule reachable.key[OF reachable_session0 handle_plus_session0])

lemma flags_session1:
  "is_read_only (- 1) 0 (session1\<lparr>cursor_x := a, cursor_y := b\<rparr>) = Inr False"
  "is_read_only 0 0 (session1\<lparr>cursor_x := a, cursor_y := b\<rparr>) = Inr True"
  "is_read_only 1 0 (session1\<lparr>cursor_x := a, cursor_y := b\<rparr>) = Inr False"
  "is_read_only (- 1) (- 1) (session1\<lparr>cursor_x := a, cursor_y := b\<rparr>) = Inr False"
  unfolding is_read_only_def session1_def grid1_def
  by (simp_all add: py_get2_def py_index_def Let_def)

lemma session2_alt: "session2 = session1\<lparr>cursor_x := - 1, cursor_y := 0\<rparr>"
  by (simp add: session1_def session2_def)

lemma session1_alt: "session1 = session1\<lparr>cursor_x := - 1, cursor_y := - 1\<rparr>"
  by (simp add: session1_def)

lemma handle_down_session1: "handle_key KEY_DOWN session1 = Some (Inr session2)"
proof -
  have "jump_steps (Suc 0) 0 1 session1 (- 1) (- 1) = Some (Inr (True, session2))"
    using flags_session1(1)[of "- 1" "- 1"]
    by (simp add: session1_alt[symmetric] session2_alt is_within_bounds_def) (simp add: session1_def)
  from jump_steps_sound[OF this] have "move_cursor 0 1 session1 = Some (Inr session2)"
    unfolding move_cursor_def jump_across_def by (simp add: session1_def)
  then show ?thesis
    unfolding handle_key_def KEY_F_def KEY_DOWN_def KEY_LEFT_def KEY_RIGHT_def KEY_UP_def by simp
qed

lemma reachable_session2: "reachable rm session2"
  by (rule reachable.key[OF reachable_session1 handle_down_session1])

lemma jump_right_session2:
  "jump_steps (Suc (Suc 0)) 1 0 session2 (- 1) 0 = Some (Inr (True, session2\<lparr>cursor_x := 1, cursor_y := 0\<rparr>))"
  using flags_session1(2,3)[of "- 1" 0]
  by (simp add: session2_alt is_within_bounds_def) (simp add: session1_def)

theorem move_cursor_skips_frozen_witness:
  "reachable first_picks session2 \<and> unit_direction 1 0 \<and>
   move_cursor 1 0 session2 = Some (Inr (session2\<lparr>cursor_x := 1, cursor_y := 0\<rparr>)) \<and>
   is_read_only 0 0 session2 = Inr True \<and> is_read_only 1 0 session2 = Inr False"
proof -
  have u: "unit_direction 1 0" by (simp add: unit_direction_def)
  from jump_steps_sound[OF jump_right_session2]
  have m: "move_cursor 1 0 session2 = Some (Inr (session2\<lparr>cursor_x := 1, cursor_y := 0\<rparr>))"
    unfolding move_cursor_def jump_across_def by (simp add: session2_def)
  from move_cursor_skips_frozen[OF reachable_session2[of first_picks] u] m
    reachable_session2[of first_picks] u flags_session1(2,3)[of "- 1" 0]
  show ?thesis by (simp add: session2_alt)
qed

theorem jump_across_terminates_witness:
  "reachable first_picks session2 \<and> unit_direction 1 0 \<and>
   jump_steps (2 * current_layer session2 + 1) 1 0 session2 (cursor_x session2) (cursor_y session2)
     = Some (Inr (True, session2\<lparr>cursor_x := 1, cursor_y := 0\<rparr>)) \<and>
   jump_across 1 0 session2 = Some (Inr (True, session2\<lparr>cursor_x := 1, cursor_y := 0\<rparr>))"
proof -
  have u: "unit_direction 1 0" by (simp add: unit_direction_def)
  from jump_across_terminates[OF reachable_session2[of first_picks] u]
  obtain moved s' where
    a: "jump_steps (2 * current_layer session2 + 1) 1 0 session2 (cursor_x session2) (cursor_y session2)
          = Some (Inr (moved, s'))"
    and b: "jump_across 1 0 session2 = Some (Inr (moved, s'))" by blast
  from jump_steps_sound[OF jump_right_session2]
  have "jump_across 1 0 session2 = Some (Inr (True, session2\<lparr>cursor_x := 1, cursor_y := 0\<rparr>))"
    unfolding jump_across_def by (simp add: session2_def)
  with a b reachable_session2[of first_picks] u show ?thesis by simp
qed

theorem cursor_on_unfrozen_cell_witness:
  "reachable first_picks session2 \<and>
   is_within_bounds (cursor_x session2) (cursor_y session2) session2 \<and>
   is_read_only (cursor_x session2) (cursor_y session2) session2 = Inr False"
  using cursor_on_unfrozen_cell[OF reachable_session2[of first_picks]] reachable_session2[of first_picks]
  by blast

text \<open>A well-formed state whose cursor stands on the frozen centre of layer 1.\<close>

lemma insert_session1:
  "insert_char ''x'' session1 =
     Inr (session1\<lparr>data := [(0, ''A'') \<mapsto> grid0, (1, ''A'') \<mapsto> grid1, (1, ''A'') \<mapsto> grid1_written]\<rparr>)"
  unfolding insert_char_def session1_def grid1_def grid1_written_def
  by (simp add: py_get2_def py_set2_def py_index_def Let_def)

theorem insert_char_writes_iff_unfrozen_witness:
  "is_read_only (cursor_x on_frozen) (cursor_y on_frozen) on_frozen = Inr True \<and>
   insert_char ''x'' on_frozen = Inr on_frozen \<and>
   is_read_only (cursor_x session1) (cursor_y session1) session1 = Inr False \<and>
   insert_char ''x'' session1 =
     Inr (session1\<lparr>data := [(0, ''A'') \<mapsto> grid0, (1, ''A'') \<mapsto> grid1, (1, ''A'') \<mapsto> grid1_written]\<rparr>) \<and>
   py_get2 (fst grid1_written) 0 0 = Inr ''x''"
proof -
  have f: "is_read_only (cursor_x on_frozen) (cursor_y on_frozen) on_frozen = Inr True"
    unfolding is_read_only_def on_frozen_def grid1_def
    by (simp add: py_get2_def py_index_def Let_def)
  have u: "is_read_only (cursor_x session1) (cursor_y session1) session1 = Inr False"
    unfolding is_read_only_def session1_def grid1_def
    by (simp add: py_get2_def py_index_def Let_def)
  have r: "py_get2 (fst grid1_written) 0 0 = Inr ''x''"
    by (simp add: grid1_written_def py_get2_def py_index_def)
  from insert_char_writes_iff_unfrozen[of on_frozen "''x''"] f
  have "insert_char ''x'' on_frozen = Inr on_frozen" by blast
  with f u r insert_session1 show ?thesis by simp
qed

lemma ring_scan_spec:
  assumes sq: "square (2 * N + 1) g"
  shows "\<forall>p \<in> set ps. chebyshev p \<le> int N \<Longrightarrow>
         ring_scan g (int N) ps acc =
           Inr (acc @ map (\<lambda>p. (snd p, fst p, cell_at g N p))
                        (filter (\<lambda>p. chebyshev p = int N \<and> \<not> filtered_out (cell_at g N p)) ps))"
proof (induction ps arbitrary: acc)
  case Nil
  then show ?case by simp
next
  case (Cons p ps)
  obtain y x where p: "p = (y, x)" by (cases p)
  from Cons.prems p have b: "max \<bar>x\<bar> \<bar>y\<bar> \<le> int N" by (simp add: chebyshev_def)
  from Cons.prems have rest: "\<forall>p \<in> set ps. chebyshev p \<le> int N" by simp
  note IH = Cons.IH[OF rest]
  show ?case
  proof (cases "max \<bar>x\<bar> \<bar>y\<bar> = int N")
    case False
    then show ?thesis unfolding p by (simp add: IH chebyshev_def)
  next
    case True
    show ?thesis
    proof (cases "filtered_out (cell_at g N (y, x))")
      case f: True
      with True show ?thesis
        unfolding p using cell_center[OF sq b]
        by (simp add: IH chebyshev_def Let_def cell_at_def filtered_out_def)
    next
      case f: False
      with True show ?thesis
        unfolding p using cell_center[OF sq b]
        by (simp add: IH chebyshev_def Let_def cell_at_def filtered_out_def)
    qed
  qed
qed

lemma ring_positions_bound: "\<forall>p \<in> set (ring_positions N). chebyshev p \<le> int N"
  unfolding ring_positions_def chebyshev_def by auto

lemma distinct_ring_positions: "distinct (ring_positions N)"
  unfolding ring_positions_def by (simp add: distinct_product)

lemma ring_count: "length (filter (\<lambda>p. chebyshev p = int (Suc m)) (ring_positions (Suc m))) = 8 * Suc m"
proof -
  let ?N = "int (Suc m)"
  let ?big = "{- ?N..?N} \<times> {- ?N..?N}" and ?small = "{- int m..int m} \<times> {- int m..int m}"
  have "{p \<in> set (ring_positions (Suc m)). chebyshev p = ?N} = ?big - ?small"
    unfolding ring_positions_def chebyshev_def by auto
  moreover have "?small \<subseteq> ?big" by auto
  moreover have "finite ?small" by simp
  ultimately have "card {p \<in> set (ring_positions (Suc m)). chebyshev p = ?N} = card ?big - card ?small"
    by (simp add: card_Diff_subset)
  also have "card ?big = (2 * m + 3) * (2 * m + 3)"
  proof -
    have "card {- ?N..?N} = 2 * m + 3" by (simp add: nat_eq_iff)
    then show ?thesis by (simp only: card_cartesian_product)
  qed
  also have "card ?small = (2 * m + 1) * (2 * m + 1)"
  proof -
    have "card {- int m..int m} = 2 * m + 1" by (simp add: nat_eq_iff)
    then show ?thesis by (simp only: card_cartesian_product)
  qed
  also have "(2 * m + 3) * (2 * m + 3) - (2 * m + 1) * (2 * m + 1) = 8 * Suc m"
    by (simp add: algebra_simps)
  finally show ?thesis
    by (simp add: distinct_length_filter[OF distinct_ring_positions] Int_def conj_commute)
qed

lemma get_outer_ring_cells_pos:
  assumes "d (Suc m, A) = Some (grid, ro)" "square (2 * Suc m + 1) grid"
  shows "get_outer_ring_cells (Suc m) A d =
           Inr (map (\<lambda>p. (snd p, fst p, cell_at grid (Suc m) p))
                  (filter (\<lambda>p. chebyshev p = int (Suc m) \<and> \<not> filtered_out (cell_at grid (Suc m) p))
                     (ring_positions (Suc m))))"
  unfolding get_outer_ring_cells_def assms(1)
  using ring_scan_spec[OF assms(2) ring_positions_bound, of "[]"]
  by (simp add: Let_def ring_positions_def del: of_nat_Suc)

text \<open>
  Claim C5. For a cached grid of the right dimension: at layer 0 get\_outer\_ring\_cells
  returns the one cell (0, 0) with the symbol of the origin cell, whatever it is. At a
  layer N > 0 it returns, without repetition, exactly the triples (x, y, ch) with
  Chebyshev distance max |x| |y| = N whose cell holds ch and ch is none of blank, empty
  and the default placeholder; the positions that pass the distance test number 8 * N.
  The result does not depend on the frozen flags.
\<close>
theorem get_outer_ring_cells_ring:
  assumes "d (layer, A) = Some (grid, ro)" "square (2 * layer + 1) grid"
  shows "(layer = 0 \<longrightarrow> get_outer_ring_cells layer A d = Inr [(0, 0, grid ! 0 ! 0)]) \<and>
         (0 < layer \<longrightarrow>
            (\<exists>ring. get_outer_ring_cells layer A d = Inr ring \<and> distinct ring \<and>
               set ring = {(x, y, ch). max \<bar>x\<bar> \<bar>y\<bar> = int layer \<and>
                              py_get2 grid (y + int layer) (x + int layer) = Inr ch \<and>
                              ch \<notin> set ['' '', '''', DEFAULT_CHAR]} \<and>
               length (filter (\<lambda>(y, x). max \<bar>x\<bar> \<bar>y\<bar> = int layer)
                         (List.product [- int layer..int layer] [- int layer..int layer]))
                 = 8 * layer)) \<and>
         (\<forall>ro'. get_outer_ring_cells layer A (d((layer, A) \<mapsto> (grid, ro')))
                 = get_outer_ring_cells layer A d)"
proof (intro conjI impI allI)
  assume "layer = 0"
  have l: "py_get2 grid 0 0 = Inr (grid ! 0 ! 0)"
    using py_get2_square[OF assms(2), of 0 0] by simp
  from \<open>layer = 0\<close> assms(1) l show "get_outer_ring_cells layer A d = Inr [(0, 0, grid ! 0 ! 0)]"
    unfolding get_outer_ring_cells_def by simp
next
  fix ro'
  show "get_outer_ring_cells layer A (d((layer, A) \<mapsto> (grid, ro'))) = get_outer_ring_cells layer A d"
    unfolding get_outer_ring_cells_def using assms(1) by simp
next
  assume pos: "0 < layer"
  then obtain m where m: "layer = Suc m" by (cases layer) auto
  let ?f = "\<lambda>p. (snd p, fst p, cell_at grid layer p)"
  let ?Q = "\<lambda>p. chebyshev p = int layer \<and> \<not> filtered_out (cell_at grid layer p)"
  let ?ring = "map ?f (filter ?Q (ring_positions layer))"
  have r: "get_outer_ring_cells layer A d = Inr ?ring"
    using get_outer_ring_cells_pos[of d m A grid ro] assms unfolding m by simp
  have inj: "inj_on ?f (set (filter ?Q (ring_positions layer)))"
    by (rule inj_onI) (auto simp: prod_eq_iff)
  have dist: "distinct ?ring"
    using distinct_ring_positions[of layer] inj by (simp add: distinct_map)
  have cell: "py_get2 grid (y + int layer) (x + int layer) = Inr (cell_at grid layer (y, x))"
    if "max \<bar>x\<bar> \<bar>y\<bar> = int layer" for x y
    using cell_center[OF assms(2), of x y] that by (simp add: cell_at_def)
  have mem: "(y, x) \<in> set (ring_positions layer)" if "max \<bar>x\<bar> \<bar>y\<bar> = int layer" for x y
    using that unfolding ring_positions_def by auto
  have st: "set ?ring = {(x, y, ch). max \<bar>x\<bar> \<bar>y\<bar> = int layer \<and>
                              py_get2 grid (y + int layer) (x + int layer) = Inr ch \<and>
                              ch \<notin> set ['' '', '''', DEFAULT_CHAR]}"
  proof (intro set_eqI iffI)
    fix t assume "t \<in> set ?ring"
    then obtain y x where t: "t = (x, y, cell_at grid layer (y, x))"
      and c: "max \<bar>x\<bar> \<bar>y\<bar> = int layer" and nf: "\<not> filtered_out (cell_at grid layer (y, x))"
      by (auto simp: chebyshev_def)
    from cell[OF c] c nf show "t \<in> {(x, y, ch). max \<bar>x\<bar> \<bar>y\<bar> = int layer \<and>
                              py_get2 grid (y + int layer) (x + int layer) = Inr ch \<and>
                              ch \<notin> set ['' '', '''', DEFAULT_CHAR]}"
      unfolding t filtered_out_def by simp
  next
    fix t assume "t \<in> {(x, y, ch). max \<bar>x\<bar> \<bar>y\<bar> = int layer \<and>
                              py_get2 grid (y + int layer) (x + int layer) = Inr ch \<and>
                              ch \<notin> set ['' '', '''', DEFAULT_CHAR]}"
    then obtain x y ch where t: "t = (x, y, ch)" and c: "max \<bar>x\<bar> \<bar>y\<bar> = int layer"
      and g: "py_get2 grid (y + int layer) (x + int layer) = Inr ch"
      and nf: "ch \<notin> set ['' '', '''', DEFAULT_CHAR]" by auto
    from cell[OF c] g have ch: "ch = cell_at grid layer (y, x)" by simp
    have "?Q (y, x)" using c nf ch by (simp add: chebyshev_def filtered_out_def)
    with mem[OF c] have "(y, x) \<in> set (filter ?Q (ring_positions layer))" by simp
    then have "?f (y, x) \<in> set ?ring" by (simp only: set_map) (rule imageI)
    then show "t \<in> set ?ring" unfolding t ch by simp
  qed
  have cnt: "length (filter (\<lambda>(y, x). max \<bar>x\<bar> \<bar>y\<bar> = int layer)
                         (List.product [- int layer..int layer] [- int layer..int layer]))
                 = 8 * layer"
  proof -
    have "(\<lambda>(y, x). max \<bar>x\<bar> \<bar>y\<bar> = int layer) = (\<lambda>p. chebyshev p = int layer)"
      by (auto simp: chebyshev_def)
    then show ?thesis
      using ring_count[of m] unfolding m ring_positions_def by simp
  qed
  from r dist st cnt
  show "\<exists>ring. get_outer_ring_cells layer A d = Inr ring \<and> distinct ring \<and>
               set ring = {(x, y, ch). max \<bar>x\<bar> \<bar>y\<bar> = int layer \<and>
                              py_get2 grid (y + int layer) (x + int layer) = Inr ch \<and>
                              ch \<notin> set ['' '', '''', DEFAULT_CHAR]} \<and>
               length (filter (\<lambda>(y, x). max \<bar>x\<bar> \<bar>y\<bar> = int layer)
                         (List.product [- int layer..int layer] [- int layer..int layer]))
                 = 8 * layer"
    by blast
qed

lemma square_grid1: "square (2 * 1 + 1) (fst grid1_written)" "square (2 * 0 + 1) (fst grid0)"
  by (simp_all add: square_def grid1_written_def grid0_def)

theorem get_outer_ring_cells_ring_witness:
  "[(0, ''A'') \<mapsto> grid0, (1, ''A'') \<mapsto> grid1_written] (1, ''A'') = Some (fst grid1_written, snd grid1_written) \<and>
   square (2 * 1 + 1) (fst grid1_written) \<and>
   get_outer_ring_cells 1 ''A'' [(0, ''A'') \<mapsto> grid0, (1, ''A'') \<mapsto> grid1_written] = Inr [(- 1, - 1, ''x'')] \<and>
   get_outer_ring_cells 0 ''A'' [(0, ''A'') \<mapsto> grid0, (1, ''A'') \<mapsto> grid1_written] = Inr [(0, 0, CENTER_CHAR)] \<and>
   length (filter (\<lambda>(y, x). max \<bar>x\<bar> \<bar>y\<bar> = int 1) (List.product [- int 1..int 1] [- int 1..int 1])) = 8 * 1"
proof -
  let ?d = "[(0, ''A'') \<mapsto> grid0, (1::nat, ''A'') \<mapsto> grid1_written]"
  have k1: "?d (1, ''A'') = Some (fst grid1_written, snd grid1_written)" by simp
  have k0: "?d (0, ''A'') = Some (fst grid0, snd grid0)" by simp
  have e1: "get_outer_ring_cells 1 ''A'' ?d = Inr [(- 1, - 1, ''x'')]"
    unfolding get_outer_ring_cells_def grid1_written_def
    by (simp add: Let_def upto.simps py_get2_def py_index_def DEFAULT_CHAR_def)
  from get_outer_ring_cells_ring[of ?d 1 "''A''" "fst grid1_written" "snd grid1_written", OF k1 square_grid1(1)]
    get_outer_ring_cells_ring[of ?d 0 "''A''" "fst grid0" "snd grid0", OF k0 square_grid1(2)]
    k1 square_grid1(1) e1
  show ?thesis by (simp add: grid0_def)
qed

lemma length_sort_ring [simp]: "length (sort_ring cells) = length cells"
  by (simp add: sort_ring_def)

lemma render_3d_ring_empty: "render_3d_ring axiom layer [] = None"
  by (simp add: render_3d_ring_def)

lemma render_3d_ring_shape:
  assumes "cells \<noteq> []"
  shows "\<exists>x_vals y_vals z_vals text_vals.
           render_3d_ring axiom layer cells = Some (x_vals, y_vals, z_vals, text_vals) \<and>
           length x_vals = (if 1 < length cells then length cells + 1 else length cells) \<and>
           length y_vals = length x_vals \<and> length z_vals = length x_vals \<and>
           length text_vals = length cells"
  using assms by (simp add: render_3d_ring_def Let_def)

lemma render_3d_ring_square_shape:
  assumes "cells \<noteq> []"
  shows "\<exists>x_vals y_vals z_vals text_vals.
           render_3d_ring_square axiom layer cells = Some (x_vals, y_vals, z_vals, text_vals) \<and>
           length x_vals = (if 1 < length cells then length cells + 1 else length cells) \<and>
           length y_vals = length x_vals \<and> length z_vals = length x_vals \<and>
           length text_vals = length x_vals"
  using assms by (simp add: render_3d_ring_square_def Let_def)

text \<open>
  Claim C6, at a ring of two cells. The circular strategy of layer\_axiom\_game.py closes
  the three coordinate lists (three entries each) and leaves the symbol list as it was
  (two entries), so the symbols are not parallel to the points; the square strategy of
  old\_versions/axiom\_square\_beta.py closes all four lists.
\<close>
theorem render_3d_text_not_closed:
  "(case render_3d_ring ''A'' 1 [(- 1, - 1, ''a''), (0, - 1, ''b'')] of
      None \<Rightarrow> False
    | Some (x_vals, y_vals, z_vals, text_vals) \<Rightarrow>
        length x_vals = 3 \<and> length y_vals = 3 \<and> length z_vals = 3 \<and> length text_vals = 2) \<and>
   (case render_3d_ring_square ''A'' 1 [(- 1, - 1, ''a''), (0, - 1, ''b'')] of
      None \<Rightarrow> False
    | Some (x_vals, y_vals, z_vals, text_vals) \<Rightarrow>
        length x_vals = 3 \<and> length y_vals = 3 \<and> length z_vals = 3 \<and> length text_vals = 3)"
  by (simp add: render_3d_ring_def render_3d_ring_square_def Let_def)

lemma flag_center:
  assumes "grid_wf N (g, ro)" "max \<bar>x\<bar> \<bar>y\<bar> \<le> int N"
  shows "py_get2 ro (y + int N) (x + int N) = Inr (max \<bar>x\<bar> \<bar>y\<bar> < int N)"
proof -
  from assms(1) have sq: "square (2 * N + 1) ro"
    and fl: "\<And>gy gx. gy < 2 * N + 1 \<Longrightarrow> gx < 2 * N + 1 \<Longrightarrow> ro ! gy ! gx = frozen_pos N gy gx"
    unfolding grid_wf_def by simp_all
  from assms(2) have lt: "nat (y + int N) < 2 * N + 1" "nat (x + int N) < 2 * N + 1" by auto
  show ?thesis
    using cell_center[OF sq assms(2)] fl[OF lt] frozen_center[OF assms(2)] by simp
qed

lemma ring_unfrozen_spec:
  assumes wf: "grid_wf N (g, ro)"
  shows "\<forall>p \<in> set ps. chebyshev p \<le> int N \<Longrightarrow>
         ring_unfrozen ro (int N) ps acc =
           Inr (acc @ map (\<lambda>p. (snd p + int N, fst p + int N))
                        (filter (\<lambda>p. chebyshev p = int N) ps))"
proof (induction ps arbitrary: acc)
  case Nil
  then show ?case by simp
next
  case (Cons p ps)
  obtain y x where p: "p = (y, x)" by (cases p)
  from Cons.prems p have b: "max \<bar>x\<bar> \<bar>y\<bar> \<le> int N" by (simp add: chebyshev_def)
  from Cons.prems have rest: "\<forall>p \<in> set ps. chebyshev p \<le> int N" by simp
  note IH = Cons.IH[OF rest]
  show ?case
  proof (cases "max \<bar>x\<bar> \<bar>y\<bar> = int N")
    case False
    then show ?thesis unfolding p by (simp add: IH chebyshev_def)
  next
    case True
    with flag_center[OF wf b] have "py_get2 ro (y + int N) (x + int N) = Inr False" by simp
    with True show ?thesis unfolding p by (simp add: IH chebyshev_def Let_def)
  qed
qed

lemma ring_unfrozen_all:
  assumes "grid_wf N (g, ro)"
  shows "ring_unfrozen ro (int N) (ring_positions N) [] = Inr (ring_coords_of N)"
  using ring_unfrozen_spec[OF assms ring_positions_bound, of "[]"]
  by (simp add: ring_coords_of_def)

lemma ring_coords_of_range:
  assumes "(gx, gy) \<in> set (ring_coords_of N)"
  shows "0 \<le> gx \<and> gx < int (2 * N + 1) \<and> 0 \<le> gy \<and> gy < int (2 * N + 1)"
  using assms unfolding ring_coords_of_def ring_positions_def chebyshev_def by auto

lemma ring_coords_of_mem:
  "max \<bar>x\<bar> \<bar>y\<bar> = int N \<Longrightarrow> (x + int N, y + int N) \<in> set (ring_coords_of N)"
  unfolding ring_coords_of_def ring_positions_def chebyshev_def by force

lemma ring_coords_of_ring:
  assumes "(gx, gy) \<in> set (ring_coords_of N)"
  shows "max \<bar>gx - int N\<bar> \<bar>gy - int N\<bar> = int N"
  using assms unfolding ring_coords_of_def ring_positions_def chebyshev_def by auto

lemma ring_coords_of_nonempty: "ring_coords_of N \<noteq> []"
proof -
  have "max \<bar>- int N\<bar> \<bar>- int N\<bar> = int N" by simp
  from ring_coords_of_mem[OF this] show ?thesis by auto
qed

lemma py_set2_nat:
  assumes "square n g" "0 \<le> gx" "gx < int n" "0 \<le> gy" "gy < int n"
  shows "py_set2 g gy gx v = Inr (g[nat gy := (g ! nat gy)[nat gx := v]])"
proof -
  from assms have i: "gy = int (nat gy)" "gx = int (nat gx)" and lt: "nat gy < n" "nat gx < n" by auto
  show ?thesis
    by (subst i(1), subst i(2)) (use lt in \<open>simp only: py_set2_square[OF assms(1)] if_True simp_thms\<close>)
qed

lemma nth_update2_square:
  assumes "square n g" "j < n" "i < n" "a < n" "b < n"
  shows "g[j := (g ! j)[i := v]] ! a ! b = (if a = j \<and> b = i then v else g ! a ! b)"
  using assms by (intro nth_update2) (simp_all add: square_def)

lemma fill_full_spec:
  assumes "\<forall>(gx, gy) \<in> set cs. 0 \<le> gx \<and> gx < int n \<and> 0 \<le> gy \<and> gy < int n"
  shows "square n g \<Longrightarrow>
         \<exists>g'. fill_full g bc cs = Inr g' \<and> square n g' \<and>
           (\<forall>gy gx. gy < n \<longrightarrow> gx < n \<longrightarrow>
              g' ! gy ! gx = (if bc \<noteq> DEFAULT_CHAR \<and> (int gx, int gy) \<in> set cs then bc else g ! gy ! gx))"
  using assms
proof (induction cs arbitrary: g)
  case Nil
  then show ?case by simp
next
  case (Cons c cs)
  obtain cx cy where c: "c = (cx, cy)" by (cases c)
  from Cons.prems(2) c have r: "0 \<le> cx" "cx < int n" "0 \<le> cy" "cy < int n"
    and rest: "\<forall>(gx, gy) \<in> set cs. 0 \<le> gx \<and> gx < int n \<and> 0 \<le> gy \<and> gy < int n" by auto
  show ?case
  proof (cases "bc = DEFAULT_CHAR")
    case True
    from Cons.IH[OF Cons.prems(1) rest] True show ?thesis unfolding c by simp
  next
    case False
    let ?g1 = "g[nat cy := (g ! nat cy)[nat cx := bc]]"
    have sq1: "square n ?g1" using Cons.prems(1) by (rule square_update)
    have step: "fill_full g bc (c # cs) = fill_full ?g1 bc cs"
      unfolding c using False py_set2_nat[OF Cons.prems(1) r] by simp
    from Cons.IH[OF sq1 rest] obtain g' where g': "fill_full ?g1 bc cs = Inr g'" "square n g'"
      and cells: "\<And>gy gx. gy < n \<Longrightarrow> gx < n \<Longrightarrow>
              g' ! gy ! gx = (if bc \<noteq> DEFAULT_CHAR \<and> (int gx, int gy) \<in> set cs then bc else ?g1 ! gy ! gx)"
      by blast
    from r have lt: "nat cy < n" "nat cx < n" by auto
    have "g' ! gy ! gx = (if bc \<noteq> DEFAULT_CHAR \<and> (int gx, int gy) \<in> set (c # cs) then bc else g ! gy ! gx)"
      if "gy < n" "gx < n" for gy gx
    proof -
      have "(int gx, int gy) = (cx, cy) \<longleftrightarrow> gy = nat cy \<and> gx = nat cx" using r by auto
      then show ?thesis
        using cells[OF that] nth_update2_square[OF Cons.prems(1) lt that, of bc] False
        unfolding c by auto
    qed
    with step g' show ?thesis by auto
  qed
qed

lemma ring_allI:
  assumes "d (layer, axiom) = Some (g, ro)"
    and "\<And>x y. max \<bar>x\<bar> \<bar>y\<bar> = int layer \<Longrightarrow> py_get2 g (y + int layer) (x + int layer) = Inr smb"
  shows "ring_all d layer axiom smb"
  unfolding ring_all_def using assms by simp

lemma ring_allD:
  assumes "ring_all d layer axiom smb" "d (layer, axiom) = Some (g, ro)" "max \<bar>x\<bar> \<bar>y\<bar> = int layer"
  shows "py_get2 g (y + int layer) (x + int layer) = Inr smb"
  using assms unfolding ring_all_def by simp

lemma ring_all_cong: "d' (layer, axiom) = d (layer, axiom) \<Longrightarrow> ring_all d' layer axiom smb = ring_all d layer axiom smb"
  unfolding ring_all_def by simp

lemma fresh_entry_ring:
  assumes "fresh_entry d m b" "0 < m"
  shows "ring_all d m b DEFAULT_CHAR"
proof -
  from assms obtain g ro pgr where c: "d (m, b) = Some (g, ro)" and bf: "built_from (g, ro) m (fst pgr)"
    unfolding fresh_entry_def by (auto split: option.splits if_splits)
  from bf have sq: "square (2 * m + 1) g"
    and cells: "\<And>gy gx. gy < 2 * m + 1 \<Longrightarrow> gx < 2 * m + 1 \<Longrightarrow>
       g ! gy ! gx = (if frozen_pos m gy gx then translate (fst pgr ! (gy - 1) ! (gx - 1)) else DEFAULT_CHAR)"
    unfolding built_from_def by simp_all
  show ?thesis
  proof (rule ring_allI[of d m b g ro])
    show "d (m, b) = Some (g, ro)" by (rule c)
  next
    fix x y assume r: "max \<bar>x\<bar> \<bar>y\<bar> = int m"
    then have b: "max \<bar>x\<bar> \<bar>y\<bar> \<le> int m" by simp
    then have lt: "nat (y + int m) < 2 * m + 1" "nat (x + int m) < 2 * m + 1" by auto
    from cell_center[OF sq b] cells[OF lt] frozen_center[OF b] r
    show "py_get2 g (y + int m) (x + int m) = Inr DEFAULT_CHAR" by simp
  qed
qed

lemma prefill_step_full:
  assumes inv: "store_inv d" and pos: "0 < layer" and cl: "map_of fills axiom = Some cl"
    and fresh: "fresh_ring d layer axiom"
  shows "\<exists>d'. prefill_step rm ''full'' fills (layer, axiom) (d, r) = Inr (d', r) \<and> store_inv d' \<and>
           ring_all d' layer axiom (full_symbol cl layer) \<and>
           (\<forall>k. k \<noteq> (layer, axiom) \<longrightarrow> d k \<noteq> None \<longrightarrow> d' k = d k) \<and>
           (\<forall>m b. (m, b) \<noteq> (layer, axiom) \<longrightarrow> 0 < m \<longrightarrow> d (m, b) = None \<longrightarrow> d' (m, b) \<noteq> None \<longrightarrow>
              ring_all d' m b DEFAULT_CHAR)"
proof -
  from ensure_spec[OF inv, of layer axiom] obtain d1 where
    e: "ensure_layer_axiom layer axiom d = Inr d1" and en: "ensured layer axiom d d1" by blast
  note inv1 = ensured_inv[OF en]
  from ensured_there[OF en] obtain g ro where c: "d1 (layer, axiom) = Some (g, ro)" by auto
  note wf = store_invD[OF inv1 c]
  then have sq: "square (2 * layer + 1) g" by (simp add: grid_wf_def)
  have ring1: "ring_all d1 layer axiom DEFAULT_CHAR"
  proof (cases "d (layer, axiom) = None")
    case True
    from ensured_new[OF en True] c have "fresh_entry d1 layer axiom" by simp
    from fresh_entry_ring[OF this pos] show ?thesis .
  next
    case False
    with fresh have "ring_all d layer axiom DEFAULT_CHAR" unfolding fresh_ring_def by simp
    with ring_all_cong[of d1 layer axiom d, OF ensured_keeps[OF en False]] show ?thesis by simp
  qed
  note rc = ring_unfrozen_all[OF wf, unfolded ring_positions_def]
  have ne: "length (ring_coords_of layer) \<noteq> 0" using ring_coords_of_nonempty by simp
  have keep1: "d1 k = d k" if "d k \<noteq> None" for k using ensured_keeps[OF en that] .
  have new1: "ring_all d1 m b DEFAULT_CHAR" if "0 < m" "d (m, b) = None" "d1 (m, b) \<noteq> None" for m b
  proof -
    from ensured_new[OF en that(2,3)] have "fresh_entry d1 m b" by blast
    from fresh_entry_ring[OF this that(1)] show ?thesis .
  qed
  show ?thesis
  proof (cases "layer \<le> length cl")
    case False
    have st: "prefill_step rm ''full'' fills (layer, axiom) (d, r) = Inr (d1, r)"
      unfolding prefill_step_def using e c rc ne cl False by (simp add: Let_def)
    have "full_symbol cl layer = DEFAULT_CHAR" using False by (simp add: full_symbol_def)
    with ring1 have ringf: "ring_all d1 layer axiom (full_symbol cl layer)" by simp
    show ?thesis
    proof (intro exI[of _ d1] conjI allI impI)
      show "prefill_step rm ''full'' fills (layer, axiom) (d, r) = Inr (d1, r)" by (rule st)
      show "store_inv d1" by (rule inv1)
      show "ring_all d1 layer axiom (full_symbol cl layer)" by (rule ringf)
    next
      fix k assume "k \<noteq> (layer, axiom)" "d k \<noteq> None"
      then show "d1 k = d k" using keep1 by blast
    next
      fix m b assume "(m, b) \<noteq> (layer, axiom)" "0 < m" "d (m, b) = None" "d1 (m, b) \<noteq> None"
      then show "ring_all d1 m b DEFAULT_CHAR" using new1 by blast
    qed
  next
    case True
    let ?bc = "cl ! (layer - 1)"
    have range: "\<forall>(gx, gy) \<in> set (ring_coords_of layer).
                   0 \<le> gx \<and> gx < int (2 * layer + 1) \<and> 0 \<le> gy \<and> gy < int (2 * layer + 1)"
      using ring_coords_of_range by blast
    from fill_full_spec[OF range sq, of ?bc] obtain g' where
      ff: "fill_full g ?bc (ring_coords_of layer) = Inr g'" and sq': "square (2 * layer + 1) g'"
      and cells: "\<And>gy gx. gy < 2 * layer + 1 \<Longrightarrow> gx < 2 * layer + 1 \<Longrightarrow>
              g' ! gy ! gx = (if ?bc \<noteq> DEFAULT_CHAR \<and> (int gx, int gy) \<in> set (ring_coords_of layer)
                              then ?bc else g ! gy ! gx)"
      by blast
    let ?d' = "d1((layer, axiom) \<mapsto> (g', ro))"
    have st: "prefill_step rm ''full'' fills (layer, axiom) (d, r) = Inr (?d', r)"
      unfolding prefill_step_def using e c rc ne cl True ff by (simp add: Let_def)
    have inv': "store_inv ?d'" by (rule store_inv_regrid[OF inv1 c sq'])
    have ring': "ring_all ?d' layer axiom (full_symbol cl layer)"
    proof (rule ring_allI[of ?d' layer axiom g' ro])
      show "?d' (layer, axiom) = Some (g', ro)" by simp
    next
      fix x y assume rg: "max \<bar>x\<bar> \<bar>y\<bar> = int layer"
      then have b: "max \<bar>x\<bar> \<bar>y\<bar> \<le> int layer" by simp
      then have lt: "nat (y + int layer) < 2 * layer + 1" "nat (x + int layer) < 2 * layer + 1" by auto
      from b have idx: "int (nat (x + int layer)) = x + int layer" "int (nat (y + int layer)) = y + int layer"
        by auto
      have old: "g ! nat (y + int layer) ! nat (x + int layer) = DEFAULT_CHAR"
        using ring_allD[OF ring1 c rg] cell_center[OF sq b] by simp
      have "g' ! nat (y + int layer) ! nat (x + int layer) = full_symbol cl layer"
        using cells[OF lt, unfolded idx] ring_coords_of_mem[OF rg] old True
        by (simp add: full_symbol_def)
      with cell_center[OF sq' b]
      show "py_get2 g' (y + int layer) (x + int layer) = Inr (full_symbol cl layer)" by simp
    qed
    have keep': "?d' k = d k" if "k \<noteq> (layer, axiom)" "d k \<noteq> None" for k
      using keep1[OF that(2)] that(1) by simp
    have new': "ring_all ?d' m b DEFAULT_CHAR"
      if "(m, b) \<noteq> (layer, axiom)" "0 < m" "d (m, b) = None" "?d' (m, b) \<noteq> None" for m b
    proof -
      from that(1,4) have "d1 (m, b) \<noteq> None" by (auto split: if_splits)
      moreover from that(1) have "?d' (m, b) = d1 (m, b)" by auto
      ultimately show ?thesis using new1[OF that(2,3)] ring_all_cong[of ?d' m b d1] by simp
    qed
    show ?thesis
    proof (intro exI[of _ ?d'] conjI allI impI)
      show "prefill_step rm ''full'' fills (layer, axiom) (d, r) = Inr (?d', r)" by (rule st)
      show "store_inv ?d'" by (rule inv')
      show "ring_all ?d' layer axiom (full_symbol cl layer)" by (rule ring')
    next
      fix k assume "k \<noteq> (layer, axiom)" "d k \<noteq> None"
      then show "?d' k = d k" by (rule keep')
    next
      fix m b assume "(m, b) \<noteq> (layer, axiom)" "0 < m" "d (m, b) = None" "?d' (m, b) \<noteq> None"
      then show "ring_all ?d' m b DEFAULT_CHAR" by (rule new')
    qed
  qed
qed

lemma prefill_loop_full:
  assumes "distinct ps" "\<forall>(l, a) \<in> set ps. 0 < l \<and> map_of fills a \<noteq> None"
  shows "store_inv d \<Longrightarrow> \<forall>(l, a) \<in> set ps. fresh_ring d l a \<Longrightarrow>
         \<exists>d'. prefill_loop rm ''full'' fills ps (d, r) = Inr (d', r) \<and> store_inv d' \<and>
           (\<forall>(l, a) \<in> set ps. ring_all d' l a (full_symbol (the (map_of fills a)) l)) \<and>
           (\<forall>k. k \<notin> set ps \<longrightarrow> d k \<noteq> None \<longrightarrow> d' k = d k) \<and>
           (\<forall>m b. (m, b) \<notin> set ps \<longrightarrow> 0 < m \<longrightarrow> d (m, b) = None \<longrightarrow> d' (m, b) \<noteq> None \<longrightarrow>
              ring_all d' m b DEFAULT_CHAR)"
  using assms
proof (induction ps arbitrary: d)
  case Nil
  then show ?case by simp
next
  case (Cons p ps)
  obtain l a where p: "p = (l, a)" by (cases p)
  from Cons.prems p obtain cl where pos: "0 < l" and cl: "map_of fills a = Some cl" by auto
  from Cons.prems p have fr: "fresh_ring d l a" by auto
  from prefill_step_full[OF Cons.prems(1) pos cl fr, of rm r] obtain d1 where
    st: "prefill_step rm ''full'' fills (l, a) (d, r) = Inr (d1, r)" and inv1: "store_inv d1"
    and ring1: "ring_all d1 l a (full_symbol cl l)"
    and keep1: "\<And>k. k \<noteq> (l, a) \<Longrightarrow> d k \<noteq> None \<Longrightarrow> d1 k = d k"
    and new1: "\<And>m b. (m, b) \<noteq> (l, a) \<Longrightarrow> 0 < m \<Longrightarrow> d (m, b) = None \<Longrightarrow> d1 (m, b) \<noteq> None \<Longrightarrow>
              ring_all d1 m b DEFAULT_CHAR"
    by blast
  from Cons.prems(3) p have notin: "(l, a) \<notin> set ps" and dist: "distinct ps" by auto
  have fresh1: "\<forall>(m, b) \<in> set ps. fresh_ring d1 m b"
  proof (clarify)
    fix m b assume mem: "(m, b) \<in> set ps"
    with notin have ne: "(m, b) \<noteq> (l, a)" by auto
    from mem Cons.prems(4) have pm: "0 < m" by auto
    from mem Cons.prems(2) have f: "fresh_ring d m b" by auto
    show "fresh_ring d1 m b"
    proof (cases "d (m, b) = None")
      case True
      with new1[OF ne pm True] show ?thesis unfolding fresh_ring_def by blast
    next
      case False
      with f ring_all_cong[of d1 m b d, OF keep1[OF ne False]] show ?thesis
        unfolding fresh_ring_def by simp
    qed
  qed
  from Cons.prems(4) have rest: "\<forall>(l, a) \<in> set ps. 0 < l \<and> map_of fills a \<noteq> None" by auto
  from Cons.IH[OF inv1 fresh1 dist rest] obtain d' where
    lp: "prefill_loop rm ''full'' fills ps (d1, r) = Inr (d', r)" and inv': "store_inv d'"
    and rings: "\<forall>(l, a) \<in> set ps. ring_all d' l a (full_symbol (the (map_of fills a)) l)"
    and keep: "\<And>k. k \<notin> set ps \<Longrightarrow> d1 k \<noteq> None \<Longrightarrow> d' k = d1 k"
    and new: "\<And>m b. (m, b) \<notin> set ps \<Longrightarrow> 0 < m \<Longrightarrow> d1 (m, b) = None \<Longrightarrow> d' (m, b) \<noteq> None \<Longrightarrow>
              ring_all d' m b DEFAULT_CHAR"
    by blast
  have run: "prefill_loop rm ''full'' fills (p # ps) (d, r) = Inr (d', r)"
    unfolding p using st lp by simp
  from ring1 have some1: "d1 (l, a) \<noteq> None" unfolding ring_all_def by (auto split: option.splits)
  have ringp: "ring_all d' l a (full_symbol (the (map_of fills a)) l)"
    using ring_all_cong[of d' l a d1, OF keep[OF notin some1]] ring1 cl by simp
  have keepall: "d' k = d k" if "k \<notin> set (p # ps)" "d k \<noteq> None" for k
  proof -
    from that p have ne: "k \<noteq> (l, a)" and ni: "k \<notin> set ps" by auto
    from keep1[OF ne that(2)] that(2) have "d1 k \<noteq> None" by simp
    from keep[OF ni this] keep1[OF ne that(2)] show ?thesis by simp
  qed
  have newall: "ring_all d' m b DEFAULT_CHAR"
    if "(m, b) \<notin> set (p # ps)" "0 < m" "d (m, b) = None" "d' (m, b) \<noteq> None" for m b
  proof -
    from that p have ne: "(m, b) \<noteq> (l, a)" and ni: "(m, b) \<notin> set ps" by auto
    show ?thesis
    proof (cases "d1 (m, b) = None")
      case True
      from new[OF ni that(2) True that(4)] show ?thesis .
    next
      case False
      from new1[OF ne that(2,3) False] ring_all_cong[of d' m b d1, OF keep[OF ni False]] show ?thesis by simp
    qed
  qed
  show ?case
  proof (intro exI[of _ d'] conjI allI impI ballI)
    show "prefill_loop rm ''full'' fills (p # ps) (d, r) = Inr (d', r)" by (rule run)
    show "store_inv d'" by (rule inv')
  next
    fix q assume "q \<in> set (p # ps)"
    then consider "q = (l, a)" | "q \<in> set ps" unfolding p by auto
    then show "case q of (l, a) \<Rightarrow> ring_all d' l a (full_symbol (the (map_of fills a)) l)"
    proof cases
      case 1 with ringp show ?thesis by simp
    next
      case 2 with rings show ?thesis by blast
    qed
  next
    fix k assume "k \<notin> set (p # ps)" "d k \<noteq> None"
    then show "d' k = d k" by (rule keepall)
  next
    fix m b assume "(m, b) \<notin> set (p # ps)" "0 < m" "d (m, b) = None" "d' (m, b) \<noteq> None"
    then show "ring_all d' m b DEFAULT_CHAR" by (rule newall)
  qed
qed

lemma distinct_axioms: "distinct axioms"
  by (simp add: axioms_def)

lemma prefill_layers_unfold:
  "prefill_layers rm mode fillA fillB fillC fillD fillE fillF fillH fillI fillJ d =
     (case prefill_loop rm mode
             [(''A'', fillA), (''B'', fillB), (''C'', fillC), (''D'', fillD), (''E'', fillE),
              (''F'', fillF), (''H'', fillH), (''I'', fillI), (''J'', fillJ)]
             (List.product
                [1..<max (length fillA) (max (length fillB) (max (length fillC) (max (length fillD)
                   (max (length fillE) (max (length fillF) (max (length fillH)
                     (max (length fillI) (length fillJ)))))))) + 1] axioms)
             (d, rnd_seed rm 0) of
        Inl e \<Rightarrow> Inl e
      | Inr (d', r) \<Rightarrow> Inr d')"
  unfolding prefill_layers_def Let_def by (rule refl)

lemma fills_axioms:
  "map_of [(''A'', fillA), (''B'', fillB), (''C'', fillC), (''D'', fillD), (''E'', fillE),
           (''F'', fillF), (''H'', fillH), (''I'', fillI), (''J'', fillJ)] a \<noteq> None
     \<longleftrightarrow> a \<in> set axioms"
  by (simp add: axioms_def)

text \<open>
  Claim C9. Prefill in full mode, started on a well-formed store in which every cached
  grid of a layer above 0 still has an all-default ring (in particular on the empty
  store): the call returns, and for every layer from 1 to the largest configured depth
  and every one of the nine axioms, every cell of the ring of that grid is unfrozen and
  holds the symbol configured for that depth (index layer - 1 of the axiom's list) when
  there is one and it is not the default placeholder, and the default placeholder
  otherwise.
\<close>
theorem prefill_full_fills_rings:
  assumes "store_inv d"
    and "\<forall>l a g ro. d (l, a) = Some (g, ro) \<longrightarrow> 0 < l \<longrightarrow>
           (\<forall>x y. max \<bar>x\<bar> \<bar>y\<bar> = int l \<longrightarrow> py_get2 g (y + int l) (x + int l) = Inr DEFAULT_CHAR)"
    and "map_of [(''A'', fillA), (''B'', fillB), (''C'', fillC), (''D'', fillD), (''E'', fillE),
                 (''F'', fillF), (''H'', fillH), (''I'', fillI), (''J'', fillJ)] axiom = Some chars_list"
    and "1 \<le> layer"
    and "layer \<le> max (length fillA) (max (length fillB) (max (length fillC) (max (length fillD)
                   (max (length fillE) (max (length fillF) (max (length fillH)
                     (max (length fillI) (length fillJ))))))))"
  shows "\<exists>d' g ro.
           prefill_layers rm ''full'' fillA fillB fillC fillD fillE fillF fillH fillI fillJ d = Inr d' \<and>
           d' (layer, axiom) = Some (g, ro) \<and>
           (\<forall>x y. max \<bar>x\<bar> \<bar>y\<bar> = int layer \<longrightarrow>
              py_get2 ro (y + int layer) (x + int layer) = Inr False \<and>
              py_get2 g (y + int layer) (x + int layer) =
                Inr (if layer \<le> length chars_list \<and> chars_list ! (layer - 1) \<noteq> DEFAULT_CHAR
                     then chars_list ! (layer - 1) else DEFAULT_CHAR))"
proof -
  define fills where "fills = [(''A'', fillA), (''B'', fillB), (''C'', fillC), (''D'', fillD), (''E'', fillE),
                 (''F'', fillF), (''H'', fillH), (''I'', fillI), (''J'', fillJ)]"
  define mx where "mx = max (length fillA) (max (length fillB) (max (length fillC) (max (length fillD)
                   (max (length fillE) (max (length fillF) (max (length fillH)
                     (max (length fillI) (length fillJ))))))))"
  define ps where "ps = List.product [1..<mx + 1] axioms"
  have pl: "prefill_layers rm ''full'' fillA fillB fillC fillD fillE fillF fillH fillI fillJ d =
     (case prefill_loop rm ''full'' fills ps (d, rnd_seed rm 0) of
        Inl e \<Rightarrow> Inl e | Inr (d', r) \<Rightarrow> Inr d')"
    unfolding prefill_layers_unfold fills_def mx_def ps_def by (rule refl)
  have cl: "map_of fills axiom = Some chars_list" using assms(3) unfolding fills_def .
  have ax: "map_of fills a \<noteq> None \<longleftrightarrow> a \<in> set axioms" for a
    unfolding fills_def by (rule fills_axioms)
  have dist: "distinct ps" unfolding ps_def by (simp add: distinct_product distinct_axioms)
  have ok: "\<forall>(l, a) \<in> set ps. 0 < l \<and> map_of fills a \<noteq> None"
    unfolding ps_def using ax by auto
  have fresh: "\<forall>(l, a) \<in> set ps. fresh_ring d l a"
  proof (clarify)
    fix l a assume "(l, a) \<in> set ps"
    then have pos: "0 < l" unfolding ps_def by auto
    show "fresh_ring d l a"
    proof (cases "d (l, a)")
      case None
      then show ?thesis by (simp add: fresh_ring_def)
    next
      case (Some gr)
      obtain g ro where gr: "gr = (g, ro)" by (cases gr)
      from assms(2) Some gr pos have "\<forall>x y. max \<bar>x\<bar> \<bar>y\<bar> = int l \<longrightarrow>
          py_get2 g (y + int l) (x + int l) = Inr DEFAULT_CHAR" by blast
      with Some gr show ?thesis by (simp add: fresh_ring_def ring_all_def)
    qed
  qed
  from prefill_loop_full[OF dist ok assms(1) fresh, of rm "rnd_seed rm 0"] obtain d' where
    all: "prefill_loop rm ''full'' fills ps (d, rnd_seed rm 0) = Inr (d', rnd_seed rm 0) \<and>
          store_inv d' \<and>
          (\<forall>(l, a) \<in> set ps. ring_all d' l a (full_symbol (the (map_of fills a)) l)) \<and>
          (\<forall>k. k \<notin> set ps \<longrightarrow> d k \<noteq> None \<longrightarrow> d' k = d k) \<and>
          (\<forall>m b. (m, b) \<notin> set ps \<longrightarrow> 0 < m \<longrightarrow> d (m, b) = None \<longrightarrow> d' (m, b) \<noteq> None \<longrightarrow>
              ring_all d' m b DEFAULT_CHAR)"
    by (rule exE)
  note lp = all[THEN conjunct1] and inv' = all[THEN conjunct2, THEN conjunct1]
    and rings = all[THEN conjunct2, THEN conjunct2, THEN conjunct1]
  have lm: "layer \<le> mx" using assms(5) unfolding mx_def .
  have am: "axiom \<in> set axioms" using ax[of axiom] cl by simp
  have mem: "(layer, axiom) \<in> set ps"
    unfolding ps_def using assms(4) lm am by auto
  with rings cl have ra: "ring_all d' layer axiom (full_symbol chars_list layer)" by auto
  then obtain g ro where c: "d' (layer, axiom) = Some (g, ro)"
    unfolding ring_all_def by (auto split: option.splits)
  note wf = store_invD[OF inv' c]
  have cells: "py_get2 ro (y + int layer) (x + int layer) = Inr False \<and>
              py_get2 g (y + int layer) (x + int layer) =
                Inr (if layer \<le> length chars_list \<and> chars_list ! (layer - 1) \<noteq> DEFAULT_CHAR
                     then chars_list ! (layer - 1) else DEFAULT_CHAR)"
    if "max \<bar>x\<bar> \<bar>y\<bar> = int layer" for x y
  proof -
    from that have b: "max \<bar>x\<bar> \<bar>y\<bar> \<le> int layer" by simp
    from flag_center[OF wf b] that ring_allD[OF ra c that]
    show ?thesis by (simp add: full_symbol_def)
  qed
  have "prefill_layers rm ''full'' fillA fillB fillC fillD fillE fillF fillH fillI fillJ d = Inr d'"
    unfolding pl lp by simp
  with c cells show ?thesis by blast
qed

theorem prefill_full_fills_rings_witness:
  "store_inv Map.empty \<and>
   (\<exists>d' g ro.
      prefill_layers first_picks ''full'' [''X''] [''Y'', ''Z''] [] [] [] [] [] [] [] Map.empty = Inr d' \<and>
      d' (1, ''A'') = Some (g, ro) \<and> py_get2 g 0 0 = Inr ''X'' \<and> py_get2 g 1 2 = Inr ''X'' \<and>
      py_get2 ro 0 0 = Inr False) \<and>
   (\<exists>d' g ro.
      prefill_layers first_picks ''full'' [''X''] [''Y'', ''Z''] [] [] [] [] [] [] [] Map.empty = Inr d' \<and>
      d' (2, ''A'') = Some (g, ro) \<and> py_get2 g 0 0 = Inr DEFAULT_CHAR \<and> py_get2 g 2 4 = Inr DEFAULT_CHAR)"
proof -
  have fr: "\<forall>l a g ro. Map.empty (l, a) = Some (g, ro) \<longrightarrow> 0 < l \<longrightarrow>
           (\<forall>x y. max \<bar>x\<bar> \<bar>y\<bar> = int l \<longrightarrow> py_get2 g (y + int l) (x + int l) = Inr DEFAULT_CHAR)"
    by simp
  have m: "map_of [(''A'', [''X'']), (''B'', [''Y'', ''Z'']), (''C'', []), (''D'', []), (''E'', []),
                 (''F'', []), (''H'', []), (''I'', []), (''J'', [])] ''A'' = Some [''X'']" by simp
  have x: "''X'' \<noteq> DEFAULT_CHAR" by (simp add: DEFAULT_CHAR_def)
  from prefill_full_fills_rings[where d = Map.empty and layer = 1 and rm = first_picks, OF store_inv_empty fr m]
  obtain d1 g1 ro1 where
    p1: "prefill_layers first_picks ''full'' [''X''] [''Y'', ''Z''] [] [] [] [] [] [] [] Map.empty = Inr d1"
    and c1: "d1 (1, ''A'') = Some (g1, ro1)"
    and r1: "\<forall>x y. max \<bar>x\<bar> \<bar>y\<bar> = int 1 \<longrightarrow>
              py_get2 ro1 (y + int 1) (x + int 1) = Inr False \<and>
              py_get2 g1 (y + int 1) (x + int 1) =
                Inr (if 1 \<le> length [''X''] \<and> [''X''] ! (1 - 1) \<noteq> DEFAULT_CHAR
                     then [''X''] ! (1 - 1) else DEFAULT_CHAR)"
    by auto
  from r1[rule_format, of "- 1" "- 1"] r1[rule_format, of 1 0] x
  have a: "py_get2 g1 0 0 = Inr ''X''" "py_get2 g1 1 2 = Inr ''X''" "py_get2 ro1 0 0 = Inr False"
    by simp_all
  from prefill_full_fills_rings[where d = Map.empty and layer = 2 and rm = first_picks, OF store_inv_empty fr m]
  obtain d2 g2 ro2 where
    p2: "prefill_layers first_picks ''full'' [''X''] [''Y'', ''Z''] [] [] [] [] [] [] [] Map.empty = Inr d2"
    and c2: "d2 (2, ''A'') = Some (g2, ro2)"
    and r2: "\<forall>x y. max \<bar>x\<bar> \<bar>y\<bar> = int 2 \<longrightarrow>
              py_get2 ro2 (y + int 2) (x + int 2) = Inr False \<and>
              py_get2 g2 (y + int 2) (x + int 2) =
                Inr (if 2 \<le> length [''X''] \<and> [''X''] ! (2 - 1) \<noteq> DEFAULT_CHAR
                     then [''X''] ! (2 - 1) else DEFAULT_CHAR)"
    by auto
  from r2[rule_format, of "- 2" "- 2"] r2[rule_format, of 2 0]
  have b: "py_get2 g2 0 0 = Inr DEFAULT_CHAR" "py_get2 g2 2 4 = Inr DEFAULT_CHAR"
    by simp_all
  from store_inv_empty p1 c1 a p2 c2 b show ?thesis by blast
qed

end
